theory Spec2Isabelle
  imports Complex_Main "HOL-Library.Multiset"
begin

section \<open>Value tokens, terms and the matching context\<close>

text \<open>
  The kinds of value token come from the external CSS tokenizer
  (\<^verbatim>\<open>css.TokenType\<close>); the constructors below are the kinds the matcher
  distinguishes, with \<open>ErrorToken\<close> standing for the end of the stream.
\<close>

datatype TokenType =
    ErrorToken | IdentToken | FunctionToken | HashToken | StringToken | URLToken
  | DelimToken | NumberToken | PercentageToken | DimensionToken | WhitespaceToken
  | ColonToken | SemicolonToken | CommaToken | LeftBracketToken | RightBracketToken
  | LeftParenthesisToken | RightParenthesisToken | LeftBraceToken | RightBraceToken

record Token =
  Type :: TokenType
  Value :: string

text \<open>
  A \<^verbatim>\<open>float64\<close> bound of a bracketed range. The matcher never inspects a range,
  so the value is carried as an extended real.
\<close>

datatype float64 = Finite real | PosInf | NegInf | NaN

record Range =
  Min :: float64
  Max :: float64

datatype Term =
    Keyword string
  | BasicType string "Range option"
  | PropertyType string
  | NonTerminal string
  | Literal string
  | Seq string "Term list"
  | AllOf "Term list"
  | AnyOf "Term list"
  | OneOf "Term list"
  | Group string bool Term
  | ZeroOrMore Term
  | OneOrMore Term
  | ZeroOrOne Term
  | Repeat int int bool Term

text \<open>
  \<open>Seq name operands\<close>, \<open>Group name required operand\<close> and
  \<open>Repeat min max commas operand\<close> list the fields of the source structs in the
  order they are declared. A \<^verbatim>\<open>Function\<close> holds a pointer to its return type, which
  may be nil; only the name of that basic type is ever read.
\<close>

record Function =
  Params :: "Term list"
  FType :: "string option"

record Context =
  Properties :: "string \<rightharpoonup> Term"
  NonTerminals :: "string \<rightharpoonup> Term"
  Functions :: "string \<rightharpoonup> Function"

record Capture =
  Name :: string
  Values :: "Token list"

record matcher =
  buffer :: "Token list"
  offset :: nat
  lexer :: "Token list"
  result :: "Token list"
  captures :: "Capture list"

datatype error =
    BufferUnderflow
  | IndexOutOfRange
  | UnexpectedBasicType string
  | NilDereference
  | ExpectedBufferedRune
  | OutOfFuel

type_synonym res = "error + (bool \<times> matcher)"

section \<open>The matcher\<close>

text \<open>
  The value tokenizer is an external collaborator. Its stream is the list of the tokens
  it has yet to deliver. Past the end it keeps answering with an \<open>ErrorToken\<close>, and
  an \<open>ErrorToken\<close> in the list (a read or decoding error of the underlying input)
  ends the stream in the same way: the tokenizer does not get past it.
\<close>

definition lexer_Next :: "Token list \<Rightarrow> Token \<times> Token list" where
  "lexer_Next l =
     (case l of
        [] \<Rightarrow> (\<lparr>Type = ErrorToken, Value = []\<rparr>, [])
      | t # ts \<Rightarrow> if Type t = ErrorToken then (t, t # ts) else (t, ts))"

function peek :: "nat \<Rightarrow> matcher \<Rightarrow> error + (Token \<times> matcher)" where
  "peek n m =
     (if length (buffer m) < offset m then Inl IndexOutOfRange
      else if length (buffer m) - offset m < n then
        (case lexer_Next (lexer m) of
           (t, l') \<Rightarrow>
             if Type t = ErrorToken then Inr (t, m\<lparr>lexer := l'\<rparr>)
             else if Type t \<noteq> WhitespaceToken
               then peek n (m\<lparr>buffer := buffer m @ [t], lexer := l'\<rparr>)
               else peek n (m\<lparr>lexer := l'\<rparr>))
      else if offset m + n = 0 then Inl IndexOutOfRange
      else Inr (buffer m ! (offset m + n - 1), m))"
  by pat_completeness auto
termination
  by (relation "measure (\<lambda>(n, m). length (lexer m))")
     (auto simp: lexer_Next_def split: list.splits if_splits)

declare peek.simps [simp del]

definition chomp :: "matcher \<Rightarrow> error + matcher" where
  "chomp m =
     (if length (buffer m) = 0 then Inl BufferUnderflow
      else if length (buffer m) \<le> offset m then Inl IndexOutOfRange
      else Inr (m\<lparr>result := result m @ [buffer m ! offset m], offset := offset m + 1\<rparr>))"

text \<open>
  The pattern shared by every single-token test of the source: look at the next token,
  report no match when it fails the test, otherwise consume it.
\<close>

definition expectNext :: "(Token \<Rightarrow> bool) \<Rightarrow> matcher \<Rightarrow> res" where
  "expectNext ok m =
     (case peek 1 m of
        Inl e \<Rightarrow> Inl e
      | Inr (next, m1) \<Rightarrow>
          if \<not> ok next then Inr (False, m1)
          else (case chomp m1 of Inl e \<Rightarrow> Inl e | Inr m2 \<Rightarrow> Inr (True, m2)))"

definition matchKeyword :: "string \<Rightarrow> matcher \<Rightarrow> res" where
  "matchKeyword t m =
     expectNext (\<lambda>next. \<not> (Type next \<noteq> IdentToken \<or> Value next \<noteq> t)) m"

definition ratioTerm :: Term where
  "ratioTerm =
     Seq [] [
       BasicType ''number'' (Some \<lparr>Min = Finite 0, Max = PosInf\<rparr>),
       ZeroOrOne (Group [] False (Seq [] [
         Literal ''/'',
         BasicType ''number'' (Some \<lparr>Min = Finite 0, Max = PosInf\<rparr>)]))]"

text \<open>The loop of \<^verbatim>\<open>matchFunction\<close> over the declared parameters.\<close>

fun matchParams :: "(Term \<Rightarrow> matcher \<Rightarrow> res) \<Rightarrow> nat \<Rightarrow> Term list \<Rightarrow> matcher \<Rightarrow> res" where
  "matchParams mt s [] m = Inr (True, m)"
| "matchParams mt s (t # ts) m =
     (case mt t m of
        Inl e \<Rightarrow> Inl e
      | Inr (matched, m1) \<Rightarrow>
          if \<not> matched then Inr (False, m1\<lparr>offset := s\<rparr>)
          else if ts \<noteq> [] then
            (case peek 1 m1 of
               Inl e \<Rightarrow> Inl e
             | Inr (next, m2) \<Rightarrow>
                 if Type next = CommaToken then
                   (case chomp m2 of Inl e \<Rightarrow> Inl e | Inr m3 \<Rightarrow> matchParams mt s ts m3)
                 else matchParams mt s ts m2)
          else matchParams mt s ts m1)"

definition matchFunction ::
  "(Term \<Rightarrow> matcher \<Rightarrow> res) \<Rightarrow> Context \<Rightarrow> matcher \<Rightarrow> error + (Function option \<times> matcher)" where
  "matchFunction mt ctx m =
     (let s = offset m in
      case peek 1 m of
        Inl e \<Rightarrow> Inl e
      | Inr (token, m1) \<Rightarrow>
          if Value token = [] then Inl IndexOutOfRange
          else (case Functions ctx (butlast (Value token)) of
             None \<Rightarrow> Inr (None, m1)
           | Some fn \<Rightarrow>
              (case chomp m1 of
                 Inl e \<Rightarrow> Inl e
               | Inr m2 \<Rightarrow>
                  (case matchParams mt s (Params fn) m2 of
                     Inl e \<Rightarrow> Inl e
                   | Inr (ok, m3) \<Rightarrow>
                      if \<not> ok then Inr (None, m3)
                      else (case peek 1 m3 of
                         Inl e \<Rightarrow> Inl e
                       | Inr (next, m4) \<Rightarrow>
                          if Type next \<noteq> RightParenthesisToken
                            then Inr (None, m4\<lparr>offset := s\<rparr>)
                          else (case chomp m4 of
                             Inl e \<Rightarrow> Inl e
                           | Inr m5 \<Rightarrow> Inr (Some fn, m5)))))))"

definition matchBasicType ::
  "(Term \<Rightarrow> matcher \<Rightarrow> res) \<Rightarrow> Context \<Rightarrow> string \<Rightarrow> matcher \<Rightarrow> res" where
  "matchBasicType mt ctx name m =
     (case peek 1 m of
        Inl e \<Rightarrow> Inl e
      | Inr (first, m1) \<Rightarrow>
          if Type first = FunctionToken then
            (case matchFunction mt ctx m1 of
               Inl e \<Rightarrow> Inl e
             | Inr (None, m2) \<Rightarrow> Inr (False, m2)
             | Inr (Some f, m2) \<Rightarrow>
                 (case FType f of
                    None \<Rightarrow> Inl NilDereference
                  | Some fname \<Rightarrow> Inr (fname = name, m2)))
          else if name = ''custom-ident'' \<or> name = ''dashed-ident'' then
            expectNext (\<lambda>next. \<not> Type next \<noteq> IdentToken) m1
          else if name = ''string'' then
            expectNext (\<lambda>next. \<not> Type next \<noteq> StringToken) m1
          else if name = ''url'' then
            expectNext (\<lambda>next. \<not> Type next \<noteq> URLToken) m1
          else if name = ''color'' then
            expectNext (\<lambda>next. \<not> (Type next \<noteq> HashToken \<and> Type next \<noteq> IdentToken)) m1
          else if name = ''integer'' \<or> name = ''number'' then
            expectNext (\<lambda>next. \<not> Type next \<noteq> NumberToken) m1
          else if name = ''percentage'' then
            expectNext (\<lambda>next. \<not> Type next \<noteq> PercentageToken) m1
          else if name = ''dimension'' \<or> name = ''length'' \<or> name = ''angle''
                \<or> name = ''time'' \<or> name = ''frequency'' \<or> name = ''resolution'' then
            expectNext (\<lambda>next. \<not> Type next \<noteq> DimensionToken) m1
          else if name = ''ratio'' then mt ratioTerm m1
          else Inl (UnexpectedBasicType name))"

definition matchPropertyType ::
  "(Term \<Rightarrow> matcher \<Rightarrow> res) \<Rightarrow> Context \<Rightarrow> string \<Rightarrow> matcher \<Rightarrow> res" where
  "matchPropertyType mt ctx t m =
     (case Properties ctx t of
        Some term \<Rightarrow>
          (let c = length (result m) in
           case mt term m of
             Inl e \<Rightarrow> Inl e
           | Inr (matched, m1) \<Rightarrow>
               if \<not> matched then Inr (False, m1)
               else Inr (False,
                 m1\<lparr>captures := captures m1 @ [\<lparr>Name = t, Values = drop c (result m1)\<rparr>]\<rparr>))
      | None \<Rightarrow> Inr (False, m))"

definition matchNonTerminal ::
  "(Term \<Rightarrow> matcher \<Rightarrow> res) \<Rightarrow> Context \<Rightarrow> string \<Rightarrow> matcher \<Rightarrow> res" where
  "matchNonTerminal mt ctx t m =
     (case NonTerminals ctx t of
        Some term \<Rightarrow>
          (let c = length (result m) in
           case mt term m of
             Inl e \<Rightarrow> Inl e
           | Inr (matched, m1) \<Rightarrow>
               if \<not> matched then Inr (False, m1)
               else Inr (True,
                 m1\<lparr>captures := captures m1 @ [\<lparr>Name = t, Values = drop c (result m1)\<rparr>]\<rparr>))
      | None \<Rightarrow> Inr (False, m))"

definition literalKind :: "string \<Rightarrow> TokenType" where
  "literalKind t =
     (if t = '':'' then ColonToken
      else if t = ''{'' then LeftBraceToken
      else if t = ''['' then LeftBracketToken
      else if t = ''('' then LeftParenthesisToken
      else if t = ''}'' then RightBraceToken
      else if t = '']'' then RightBracketToken
      else if t = '')'' then RightParenthesisToken
      else if t = '';'' then SemicolonToken
      else DelimToken)"

definition matchLiteral :: "string \<Rightarrow> matcher \<Rightarrow> res" where
  "matchLiteral t m =
     (let expect = literalKind t in
      expectNext (\<lambda>next. \<not> (Type next \<noteq> expect \<or> Value next \<noteq> t)) m)"

text \<open>The loop of \<^verbatim>\<open>matchSeq\<close>: every operand in order, stopping at the first failure.\<close>

fun matchOperands :: "(Term \<Rightarrow> matcher \<Rightarrow> res) \<Rightarrow> Term list \<Rightarrow> matcher \<Rightarrow> res" where
  "matchOperands mt [] m = Inr (True, m)"
| "matchOperands mt (t # ts) m =
     (case mt t m of
        Inl e \<Rightarrow> Inl e
      | Inr (matched, m1) \<Rightarrow>
          if \<not> matched then Inr (False, m1) else matchOperands mt ts m1)"

definition matchSeq :: "(Term \<Rightarrow> matcher \<Rightarrow> res) \<Rightarrow> string \<Rightarrow> Term list \<Rightarrow> matcher \<Rightarrow> res" where
  "matchSeq mt name operands m =
     (let c = length (result m) in
      case matchOperands mt operands m of
        Inl e \<Rightarrow> Inl e
      | Inr (ok, m1) \<Rightarrow>
          if \<not> ok then Inr (False, m1)
          else if name \<noteq> [] then
            Inr (True, m1\<lparr>captures := captures m1 @ [\<lparr>Name = name, Values = drop c (result m1)\<rparr>]\<rparr>)
          else Inr (True, m1))"

text \<open>
  The inner loop of \<^verbatim>\<open>matchAllOf\<close>: scan the pending operands in order and stop at
  the first that matches. \<open>Some pending'\<close> is the pending list with that operand
  removed; \<open>None\<close> says that no operand matched.
\<close>

fun scanPending ::
  "(Term \<Rightarrow> matcher \<Rightarrow> res) \<Rightarrow> Term list \<Rightarrow> Term list \<Rightarrow> matcher
     \<Rightarrow> error + (Term list option \<times> matcher)" where
  "scanPending mt skipped [] m = Inr (None, m)"
| "scanPending mt skipped (t # rest) m =
     (case mt t m of
        Inl e \<Rightarrow> Inl e
      | Inr (matched, m1) \<Rightarrow>
          if matched then Inr (Some (skipped @ rest), m1)
          else scanPending mt (skipped @ [t]) rest m1)"

lemma scanPending_length:
  "scanPending mt skipped pending m = Inr (Some pending', m')
     \<Longrightarrow> Suc (length pending') = length skipped + length pending"
proof (induction pending arbitrary: skipped m)
  case Nil
  then show ?case by simp
next
  case (Cons t rest)
  then show ?case by (fastforce split: sum.splits prod.splits if_splits)
qed

function allOfLoop :: "(Term \<Rightarrow> matcher \<Rightarrow> res) \<Rightarrow> Term list \<Rightarrow> matcher \<Rightarrow> res" where
  "allOfLoop mt pending m =
     (if length pending \<noteq> 0 then
        (case peek 1 m of
           Inl e \<Rightarrow> Inl e
         | Inr (next, m1) \<Rightarrow>
             if Type next = ErrorToken then Inr (False, m1)
             else (case scanPending mt [] pending m1 of
                Inl e \<Rightarrow> Inl e
              | Inr (None, m2) \<Rightarrow> Inr (False, m2)
              | Inr (Some pending', m2) \<Rightarrow> allOfLoop mt pending' m2))
      else Inr (True, m))"
  by pat_completeness auto
termination
  by (relation "measure (\<lambda>(mt, pending, m). length pending)")
     (auto dest: scanPending_length)

declare allOfLoop.simps [simp del]

definition matchAllOf :: "(Term \<Rightarrow> matcher \<Rightarrow> res) \<Rightarrow> Term list \<Rightarrow> matcher \<Rightarrow> res" where
  "matchAllOf mt operands m = allOfLoop mt operands m"

fun matchOneOf :: "(Term \<Rightarrow> matcher \<Rightarrow> res) \<Rightarrow> Term list \<Rightarrow> matcher \<Rightarrow> res" where
  "matchOneOf mt [] m = Inr (False, m)"
| "matchOneOf mt (t # ts) m =
     (case mt t m of
        Inl e \<Rightarrow> Inl e
      | Inr (matched, m1) \<Rightarrow>
          if matched then Inr (True, m1) else matchOneOf mt ts m1)"

text \<open>
  The loops \<^verbatim>\<open>for cond() { }\<close> of the source have no bound of their own: they run
  for as long as the condition matches, which is forever when it matches without
  consuming anything. \<open>whileMatch\<close> gives them fuel and reports \<open>OutOfFuel\<close> when it
  is spent.
\<close>

primrec whileMatch :: "nat \<Rightarrow> (matcher \<Rightarrow> res) \<Rightarrow> matcher \<Rightarrow> res" where
  "whileMatch 0 cond m = Inl OutOfFuel"
| "whileMatch (Suc k) cond m =
     (case cond m of
        Inl e \<Rightarrow> Inl e
      | Inr (matched, m1) \<Rightarrow>
          if matched then whileMatch k cond m1 else Inr (True, m1))"

definition matchAnyOf :: "nat \<Rightarrow> (Term \<Rightarrow> matcher \<Rightarrow> res) \<Rightarrow> Term list \<Rightarrow> matcher \<Rightarrow> res" where
  "matchAnyOf k mt operands m =
     (case matchOneOf mt operands m of
        Inl e \<Rightarrow> Inl e
      | Inr (matched, m1) \<Rightarrow>
          if \<not> matched then Inr (False, m1)
          else whileMatch k (matchOneOf mt operands) m1)"

definition matchGroup :: "(Term \<Rightarrow> matcher \<Rightarrow> res) \<Rightarrow> string \<Rightarrow> Term \<Rightarrow> matcher \<Rightarrow> res" where
  "matchGroup mt name operand m =
     (let c = length (result m) in
      case mt operand m of
        Inl e \<Rightarrow> Inl e
      | Inr (matched, m1) \<Rightarrow>
          if \<not> matched then Inr (False, m1)
          else if name \<noteq> [] then
            Inr (True, m1\<lparr>captures := captures m1 @ [\<lparr>Name = name, Values = drop c (result m1)\<rparr>]\<rparr>)
          else Inr (True, m1))"

definition matchZeroOrMore :: "nat \<Rightarrow> (Term \<Rightarrow> matcher \<Rightarrow> res) \<Rightarrow> Term \<Rightarrow> matcher \<Rightarrow> res" where
  "matchZeroOrMore k mt operand m = whileMatch k (mt operand) m"

definition matchOneOrMore :: "nat \<Rightarrow> (Term \<Rightarrow> matcher \<Rightarrow> res) \<Rightarrow> Term \<Rightarrow> matcher \<Rightarrow> res" where
  "matchOneOrMore k mt operand m =
     (case mt operand m of
        Inl e \<Rightarrow> Inl e
      | Inr (matched, m1) \<Rightarrow>
          if \<not> matched then Inr (False, m1) else whileMatch k (mt operand) m1)"

definition matchZeroOrOne :: "(Term \<Rightarrow> matcher \<Rightarrow> res) \<Rightarrow> Term \<Rightarrow> matcher \<Rightarrow> res" where
  "matchZeroOrOne mt operand m =
     (case mt operand m of
        Inl e \<Rightarrow> Inl e
      | Inr (matched, m1) \<Rightarrow> Inr (True, m1))"

text \<open>
  The loop of \<^verbatim>\<open>matchRepeat\<close>, from a count \<open>n\<close> of completed repetitions. It ends
  in one of two ways: the loop is left (its condition fails, or a \<^verbatim>\<open>break\<close>) with
  a final count, \<open>Some n\<close>; or the function returns false from inside the loop because
  a comma is missing, \<open>None\<close>.
\<close>

function repeatLoop ::
  "(Term \<Rightarrow> matcher \<Rightarrow> res) \<Rightarrow> int \<Rightarrow> bool \<Rightarrow> Term \<Rightarrow> nat \<Rightarrow> matcher
     \<Rightarrow> error + (nat option \<times> matcher)" where
  "repeatLoop mt mx commas operand n m =
     (if int n < mx then
        (case peek 1 m of
           Inl e \<Rightarrow> Inl e
         | Inr (next, m1) \<Rightarrow>
             if Type next = ErrorToken then Inr (Some n, m1)
             else (case (if n > 0 \<and> commas then
                           (if Type next \<noteq> CommaToken then Inr (False, m1)
                            else (case chomp m1 of Inl e \<Rightarrow> Inl e | Inr m2 \<Rightarrow> Inr (True, m2)))
                         else Inr (True, m1)) of
                Inl e \<Rightarrow> Inl e
              | Inr (go, m2) \<Rightarrow>
                  if \<not> go then Inr (None, m2)
                  else (case mt operand m2 of
                     Inl e \<Rightarrow> Inl e
                   | Inr (matched, m3) \<Rightarrow>
                       if \<not> matched then Inr (Some n, m3)
                       else repeatLoop mt mx commas operand (n + 1) m3)))
      else Inr (Some n, m))"
  by pat_completeness auto
termination
  by (relation "measure (\<lambda>(mt, mx, commas, operand, n, m). nat (mx - int n))") auto

declare repeatLoop.simps [simp del]

definition matchRepeat ::
  "(Term \<Rightarrow> matcher \<Rightarrow> res) \<Rightarrow> int \<Rightarrow> int \<Rightarrow> bool \<Rightarrow> Term \<Rightarrow> matcher \<Rightarrow> res" where
  "matchRepeat mt mn mx commas operand m =
     (case repeatLoop mt mx commas operand 0 m of
        Inl e \<Rightarrow> Inl e
      | Inr (None, m1) \<Rightarrow> Inr (False, m1)
      | Inr (Some n, m1) \<Rightarrow> Inr (int n \<ge> mn, m1))"

text \<open>
  \<^verbatim>\<open>matcher.match\<close>. The recursion runs through the operands of a term, through the
  terms a context binds to names (which may refer to themselves) and through the
  unbounded loops above, so it takes fuel: \<open>match (Suc n)\<close> hands \<open>match n\<close> to the
  function of the term's kind. \<open>dispatch\<close> is the type switch of the source; \<open>k\<close>
  is the fuel of the unbounded loops and \<open>mt\<close> the recursive \<^verbatim>\<open>m.match\<close>.
\<close>

definition dispatch ::
  "nat \<Rightarrow> (Term \<Rightarrow> matcher \<Rightarrow> res) \<Rightarrow> Context \<Rightarrow> Term \<Rightarrow> matcher \<Rightarrow> res" where
  "dispatch k mt ctx t m =
     (case t of
        Keyword kw \<Rightarrow> matchKeyword kw m
      | BasicType name rng \<Rightarrow> matchBasicType mt ctx name m
      | PropertyType p \<Rightarrow> matchPropertyType mt ctx p m
      | NonTerminal p \<Rightarrow> matchNonTerminal mt ctx p m
      | Literal c \<Rightarrow> matchLiteral c m
      | Seq name operands \<Rightarrow> matchSeq mt name operands m
      | AllOf operands \<Rightarrow> matchAllOf mt operands m
      | AnyOf operands \<Rightarrow> matchAnyOf k mt operands m
      | OneOf operands \<Rightarrow> matchOneOf mt operands m
      | Group name required operand \<Rightarrow> matchGroup mt name operand m
      | ZeroOrMore operand \<Rightarrow> matchZeroOrMore k mt operand m
      | OneOrMore operand \<Rightarrow> matchOneOrMore k mt operand m
      | ZeroOrOne operand \<Rightarrow> matchZeroOrOne mt operand m
      | Repeat mn mx commas operand \<Rightarrow> matchRepeat mt mn mx commas operand m)"

text \<open>
  A failed attempt restores the three counters saved on entry: the offset, the length
  of the result and the number of captures.
\<close>

primrec match :: "nat \<Rightarrow> Context \<Rightarrow> Term \<Rightarrow> matcher \<Rightarrow> res" where
  "match 0 ctx t m = Inl OutOfFuel"
| "match (Suc n) ctx t m =
     (let so = offset m; sr = length (result m); sc = length (captures m) in
      case dispatch n (match n ctx) ctx t m of
        Inl e \<Rightarrow> Inl e
      | Inr (matched, m1) \<Rightarrow>
          if \<not> matched then
            Inr (False, m1\<lparr>offset := so, result := take sr (result m1),
                           captures := take sc (captures m1)\<rparr>)
          else Inr (True, m1))"

declare match.simps [simp del]

text \<open>
  \<^verbatim>\<open>Match\<close>, on the tokens of the value text. The empty list is the nil slice of the
  source.
\<close>

definition newMatcher :: "Token list \<Rightarrow> matcher" where
  "newMatcher r = \<lparr>buffer = [], offset = 0, lexer = r, result = [], captures = []\<rparr>"

definition Match :: "nat \<Rightarrow> Context \<Rightarrow> Term \<Rightarrow> Token list \<Rightarrow> error + Capture list" where
  "Match fuel ctx term r =
     (case match fuel ctx term (newMatcher r) of
        Inl e \<Rightarrow> Inl e
      | Inr (matched, m1) \<Rightarrow>
          if \<not> matched then Inr []
          else Inr (captures m1 @ [\<lparr>Name = [], Values = result m1\<rparr>]))"


section \<open>Example inputs\<close>

definition noContext :: Context where
  "noContext = \<lparr>Properties = Map.empty, NonTerminals = Map.empty, Functions = Map.empty\<rparr>"

section \<open>The lexer of the grammar notation\<close>

text \<open>
  Runes are integers, as \<^verbatim>\<open>rune\<close> is \<^verbatim>\<open>int32\<close>. The errors of Go are values of \<open>goerror\<close>; a call that
  ends without returning a value either returned such an error or panicked.
\<close>

datatype goerror = EOF | ErrorString string | ErrSyntax | ErrRange

datatype stop = Returned goerror | Panicked error

definition rune :: "char \<Rightarrow> int" where
  "rune c = of_char c"

definition RuneError :: int where
  "RuneError = 65533"

definition MaxRune :: int where
  "MaxRune = 1114111"

definition infinity :: int where
  "infinity = 8734"

definition identToken :: int where "identToken = MaxRune + 0"
definition numberToken :: int where "numberToken = MaxRune + 1"
definition literalToken :: int where "literalToken = MaxRune + 2"
definition anyOfToken :: int where "anyOfToken = MaxRune + 3"
definition allOfToken :: int where "allOfToken = MaxRune + 4"

text \<open>
  The lexer reads its input through an \<^verbatim>\<open>io.Reader\<close>; \<open>l_r\<close> holds the bytes a
  \<^verbatim>\<open>strings.Reader\<close> has yet to deliver (a read at the end of the input reports \<open>EOF\<close>,
  any other read delivers what is there, up to the length asked for). The fields are
  those of the source struct, written \<open>l_buf\<close> for \<^verbatim>\<open>l.buf\<close>.
\<close>

record lexer =
  l_r :: string
  l_buf :: int
  l_err :: "goerror option"
  l_nb :: nat
  l_token :: int
  l_value :: string

text \<open>
  Go's \<^verbatim>\<open>utf8.RuneStart\<close>, \<^verbatim>\<open>bits.LeadingZeros8(^b)\<close> (the number of leading one
  bits of a byte), \<^verbatim>\<open>utf8.DecodeRune\<close>, the encoding \<^verbatim>\<open>WriteRune\<close> and
  \<^verbatim>\<open>string(rune)\<close> append, and \<^verbatim>\<open>unicode.IsSpace\<close>, after the documentation of the
  standard library.
\<close>

definition RuneStart :: "int \<Rightarrow> bool" where
  "RuneStart b = (\<not> (128 \<le> b \<and> b < 192))"

definition leadingOnes :: "int \<Rightarrow> nat" where
  "leadingOnes b =
     (if b < 128 then 0 else if b < 192 then 1 else if b < 224 then 2 else if b < 240 then 3
      else if b < 248 then 4 else if b < 252 then 5 else if b < 254 then 6
      else if b < 255 then 7 else 8)"

definition leadByte :: "int \<Rightarrow> (nat \<times> int \<times> int) option" where
  "leadByte p0 =
     (if 194 \<le> p0 \<and> p0 \<le> 223 then Some (2, 128, 191)
      else if p0 = 224 then Some (3, 160, 191)
      else if 225 \<le> p0 \<and> p0 \<le> 236 then Some (3, 128, 191)
      else if p0 = 237 then Some (3, 128, 159)
      else if 238 \<le> p0 \<and> p0 \<le> 239 then Some (3, 128, 191)
      else if p0 = 240 then Some (4, 144, 191)
      else if 241 \<le> p0 \<and> p0 \<le> 243 then Some (4, 128, 191)
      else if p0 = 244 then Some (4, 128, 143)
      else None)"

definition DecodeRune :: "int list \<Rightarrow> int" where
  "DecodeRune p =
     (case p of
        [] \<Rightarrow> RuneError
      | p0 # ps \<Rightarrow>
          if p0 < 128 then p0
          else (case leadByte p0 of
             None \<Rightarrow> RuneError
           | Some (sz, lo, hi) \<Rightarrow>
               if length p < sz then RuneError
               else let b1 = p ! 1 in
                 if b1 < lo \<or> hi < b1 then RuneError
                 else if sz \<le> 2 then (p0 mod 32) * 64 + b1 mod 64
                 else let b2 = p ! 2 in
                   if b2 < 128 \<or> 191 < b2 then RuneError
                   else if sz \<le> 3 then (p0 mod 16) * 4096 + (b1 mod 64) * 64 + b2 mod 64
                   else let b3 = p ! 3 in
                     if b3 < 128 \<or> 191 < b3 then RuneError
                     else (p0 mod 8) * 262144 + (b1 mod 64) * 4096 + (b2 mod 64) * 64
                            + b3 mod 64))"

definition encodeRune :: "int \<Rightarrow> string" where
  "encodeRune c =
     (if c < 0 then [char_of (239::int), char_of (191::int), char_of (189::int)]
      else if c \<le> 127 then [char_of c]
      else if c \<le> 2047 then [char_of (192 + c div 64), char_of (128 + c mod 64)]
      else if MaxRune < c \<or> (55296 \<le> c \<and> c \<le> 57343) then
        [char_of (239::int), char_of (191::int), char_of (189::int)]
      else if c \<le> 65535 then
        [char_of (224 + c div 4096), char_of (128 + (c div 64) mod 64), char_of (128 + c mod 64)]
      else
        [char_of (240 + c div 262144), char_of (128 + (c div 4096) mod 64),
         char_of (128 + (c div 64) mod 64), char_of (128 + c mod 64)])"

definition isSpace :: "int \<Rightarrow> bool" where
  "isSpace c =
     ((9 \<le> c \<and> c \<le> 13) \<or> c = 32 \<or> c = 133 \<or> c = 160 \<or> c = 5760
      \<or> (8192 \<le> c \<and> c \<le> 8202) \<or> c = 8232 \<or> c = 8233 \<or> c = 8239 \<or> c = 8287
      \<or> c = 12288)"

text \<open>
  \<^verbatim>\<open>readRune\<close>. The byte buffer has four bytes, all zero at first. After the first
  byte, \<^verbatim>\<open>buf[1 : sz-1]\<close> is read, one byte less than the encoding has; a first byte
  with more than five leading ones puts the slice outside the buffer, and one with five
  does so at \<^verbatim>\<open>buf[:sz]\<close>.
\<close>

definition readRune :: "lexer \<Rightarrow> error + ((int \<times> goerror option) \<times> lexer)" where
  "readRune l =
     (case l_r l of
        [] \<Rightarrow> Inr ((0, Some EOF), l)
      | b # r1 \<Rightarrow>
          let b0 = (of_char b :: int) in
          if \<not> RuneStart b0 then Inr ((RuneError, None), l\<lparr>l_r := r1\<rparr>)
          else let sz = leadingOnes b0 in
            if sz = 0 then Inr ((b0, None), l\<lparr>l_r := r1\<rparr>)
            else if sz < 2 \<or> 4 < sz - 1 then Inl IndexOutOfRange
            else if r1 = [] then Inr ((0, Some EOF), l\<lparr>l_r := r1\<rparr>)
            else let n = min (sz - 2) (length r1);
                     buf = take 4 (b0 # map of_char (take n r1) @ replicate 4 0) in
              if 4 < sz then Inl IndexOutOfRange
              else Inr ((DecodeRune (take sz buf), None), l\<lparr>l_r := drop n r1\<rparr>))"

definition andThen ::
  "(error + 'a \<times> lexer) \<Rightarrow> ('a \<Rightarrow> lexer \<Rightarrow> error + 'b \<times> lexer) \<Rightarrow> error + 'b \<times> lexer" where
  "andThen x f = (case x of Inl e \<Rightarrow> Inl e | Inr (a, l) \<Rightarrow> f a l)"

definition lexer_peek :: "lexer \<Rightarrow> error + (int \<times> lexer)" where
  "lexer_peek l =
     (if l_nb l \<noteq> 1 then
        andThen (readRune l) (\<lambda>(c, err) l1. Inr (c, l1\<lparr>l_buf := c, l_err := err, l_nb := 1\<rparr>))
      else Inr (l_buf l, l))"

definition lexer_chomp :: "lexer \<Rightarrow> error + (int \<times> lexer)" where
  "lexer_chomp l =
     (if l_nb l \<noteq> 1 then Inl ExpectedBufferedRune
      else Inr (l_buf l, l\<lparr>l_nb := 0\<rparr>))"

definition WriteRune :: "int \<Rightarrow> lexer \<Rightarrow> lexer" where
  "WriteRune c l = l\<lparr>l_value := l_value l @ encodeRune c\<rparr>"

text \<open>\<^verbatim>\<open>l.value.WriteRune(l.chomp())\<close>\<close>

definition chompWrite :: "lexer \<Rightarrow> error + (unit \<times> lexer)" where
  "chompWrite l = andThen (lexer_chomp l) (\<lambda>c l1. Inr ((), WriteRune c l1))"

definition startsIdent :: "int \<Rightarrow> bool" where
  "startsIdent c =
     (c = rune CHR ''-'' \<or> c = rune CHR ''_'' \<or> c \<ge> rune CHR ''a'' \<and> c \<le> rune CHR ''z''
      \<or> c \<ge> rune CHR ''A'' \<and> c \<le> rune CHR ''Z'')"

definition isDigit :: "int \<Rightarrow> bool" where
  "isDigit c = (c \<ge> rune CHR ''0'' \<and> c \<le> rune CHR ''9'')"

text \<open>
  The loops of the lexer take fuel: the loop of \<^verbatim>\<open>lexLiteral\<close> does not end when the
  closing quote is missing (at the end of the input \<^verbatim>\<open>peek\<close> keeps answering 0), and
  the others are bounded by the input only.
\<close>

primrec identLoop :: "nat \<Rightarrow> lexer \<Rightarrow> error + (unit \<times> lexer)" where
  "identLoop 0 l = Inl OutOfFuel"
| "identLoop (Suc k) l =
     andThen (lexer_peek l) (\<lambda>c l1.
       if startsIdent c then andThen (chompWrite l1) (\<lambda>_ l2. identLoop k l2)
       else Inr ((), l1))"

definition lexIdent :: "nat \<Rightarrow> int \<Rightarrow> lexer \<Rightarrow> error + ((int \<times> goerror option) \<times> lexer)" where
  "lexIdent k first l =
     andThen (identLoop k (if first \<noteq> 0 then WriteRune first l else l))
       (\<lambda>_ l1. Inr ((identToken, None), l1))"

text \<open>\<^verbatim>\<open>for isDigit(c) { l.value.WriteRune(l.chomp()); c = l.peek() }\<close>\<close>

primrec digitsLoop :: "nat \<Rightarrow> int \<Rightarrow> lexer \<Rightarrow> error + (int \<times> lexer)" where
  "digitsLoop 0 c l = Inl OutOfFuel"
| "digitsLoop (Suc k) c l =
     (if isDigit c then
        andThen (chompWrite l) (\<lambda>_ l1. andThen (lexer_peek l1) (\<lambda>c' l2. digitsLoop k c' l2))
      else Inr (c, l))"

definition lexNumber :: "nat \<Rightarrow> int \<Rightarrow> lexer \<Rightarrow> error + ((int \<times> goerror option) \<times> lexer)" where
  "lexNumber k first l =
     andThen (lexer_peek (if first \<noteq> 0 then WriteRune first l else l)) (\<lambda>c l1.
       if c = infinity then
         andThen (chompWrite l1) (\<lambda>_ l2. Inr ((numberToken, None), l2))
       else andThen (digitsLoop k c l1) (\<lambda>c l2.
         andThen (if c = rune CHR ''.'' then
                    andThen (chompWrite l2) (\<lambda>_ l3.
                      andThen (lexer_peek l3) (\<lambda>c l4. digitsLoop k c l4))
                  else Inr (c, l2)) (\<lambda>c l5.
           if c \<noteq> rune CHR ''e'' \<and> c \<noteq> rune CHR ''E'' then Inr ((numberToken, None), l5)
           else andThen (chompWrite l5) (\<lambda>_ l6.
             andThen (lexer_peek l6) (\<lambda>c l7.
               andThen (if c = rune CHR ''-'' \<or> c = rune CHR ''+'' then
                          andThen (chompWrite l7) (\<lambda>_ l8. lexer_peek l8)
                        else Inr (c, l7)) (\<lambda>c l9.
                 if \<not> isDigit c then
                   Inr ((0, Some (ErrorString ''invalid number token'')), l9)
                 else andThen (digitsLoop k c l9) (\<lambda>c l10.
                   Inr ((numberToken, None), l10))))))))"

primrec literalLoop :: "nat \<Rightarrow> lexer \<Rightarrow> error + (unit \<times> lexer)" where
  "literalLoop 0 l = Inl OutOfFuel"
| "literalLoop (Suc k) l =
     andThen (lexer_peek l) (\<lambda>c l1.
       if c \<noteq> rune CHR 0x22 then andThen (chompWrite l1) (\<lambda>_ l2. literalLoop k l2)
       else Inr ((), l1))"

definition lexLiteral :: "nat \<Rightarrow> lexer \<Rightarrow> error + ((int \<times> goerror option) \<times> lexer)" where
  "lexLiteral k l =
     andThen (lexer_chomp l) (\<lambda>_ l1.
       andThen (literalLoop k l1) (\<lambda>_ l2.
         andThen (lexer_chomp l2) (\<lambda>_ l3. Inr ((literalToken, None), l3))))"

definition lexIdentOrNumberOrToken ::
  "nat \<Rightarrow> lexer \<Rightarrow> error + ((int \<times> goerror option) \<times> lexer)" where
  "lexIdentOrNumberOrToken k l =
     andThen (readRune l) (\<lambda>(first, err) l1.
       if err \<noteq> None then Inr ((0, err), l1)
       else andThen (lexer_peek l1) (\<lambda>next l2.
         if next \<ge> rune CHR ''0'' \<and> next \<le> rune CHR ''9'' \<or> next = infinity
           then lexNumber k first l2
         else if startsIdent next then lexIdent k first l2
         else Inr ((first, None), l2)))"

definition lexNumberOrPlus :: "nat \<Rightarrow> lexer \<Rightarrow> error + ((int \<times> goerror option) \<times> lexer)" where
  "lexNumberOrPlus k l =
     andThen (lexer_chomp l) (\<lambda>first l1.
       andThen (lexer_peek l1) (\<lambda>next l2.
         if next \<ge> rune CHR ''0'' \<and> next \<le> rune CHR ''9'' \<or> next = infinity
           then lexNumber k first l2
         else Inr ((first, None), l2)))"

definition lexOneOrAnyOf :: "lexer \<Rightarrow> error + ((int \<times> goerror option) \<times> lexer)" where
  "lexOneOrAnyOf l =
     andThen (lexer_chomp l) (\<lambda>_ l1.
       andThen (lexer_peek l1) (\<lambda>next l2.
         if next = rune CHR ''|'' then
           andThen (lexer_chomp l2) (\<lambda>_ l3. Inr ((anyOfToken, None), l3))
         else Inr ((rune CHR ''|'', None), l2)))"

definition lexAllOfOrRune :: "lexer \<Rightarrow> error + ((int \<times> goerror option) \<times> lexer)" where
  "lexAllOfOrRune l =
     andThen (lexer_chomp l) (\<lambda>_ l1.
       andThen (lexer_peek l1) (\<lambda>next l2.
         if next = rune CHR ''&'' then
           andThen (lexer_chomp l2) (\<lambda>_ l3. Inr ((allOfToken, None), l3))
         else Inr ((rune CHR ''&'', None), l2)))"

text \<open>The loop of \<^verbatim>\<open>lexNext\<close>; it goes round again after a skipped character.\<close>

primrec lexLoop :: "nat \<Rightarrow> lexer \<Rightarrow> error + ((int \<times> goerror option) \<times> lexer)" where
  "lexLoop 0 l = Inl OutOfFuel"
| "lexLoop (Suc k) l =
     andThen (lexer_peek l) (\<lambda>c l1.
       if c = 0 then Inr ((0, l_err l1), l1)
       else if c = rune CHR ''-'' then lexIdentOrNumberOrToken k l1
       else if c = rune CHR ''+'' then lexNumberOrPlus k l1
       else if c = rune CHR ''|'' then lexOneOrAnyOf l1
       else if c = rune CHR ''&'' then lexAllOfOrRune l1
       else if c \<in> rune ` set ''<>[]{}'' \<or> c = rune CHR 0x27 \<or> c \<in> rune ` set '',*?#!'' then
         andThen (lexer_chomp l1) (\<lambda>c l2. Inr ((c, None), l2))
       else if c = RuneError \<or> isSpace c then
         andThen (lexer_chomp l1) (\<lambda>_ l2. lexLoop k l2)
       else if startsIdent c then lexIdent k 0 l1
       else if c = infinity \<or> isDigit c then lexNumber k 0 l1
       else if c = rune CHR 0x22 then lexLiteral k l1
       else andThen (lexer_chomp l1) (\<lambda>c l2. Inr ((literalToken, None), WriteRune c l2)))"

definition lexNext :: "nat \<Rightarrow> lexer \<Rightarrow> error + ((int \<times> goerror option) \<times> lexer)" where
  "lexNext k l = lexLoop k (l\<lparr>l_value := []\<rparr>)"

definition lex :: "nat \<Rightarrow> lexer \<Rightarrow> error + (goerror option \<times> lexer)" where
  "lex k l = andThen (lexNext k l) (\<lambda>(t, err) l1. Inr (err, l1\<lparr>l_token := t\<rparr>))"

section \<open>The parser of the grammar notation\<close>

text \<open>
  A parsing function ends with a value and the lexer as it has left it, or with a
  \<open>stop\<close>. \<open>lexStrict\<close> is \<^verbatim>\<open>if err := l.lex(); err != nil { return nil, err }\<close> and
  \<open>lexLenient\<close> is the same with \<^verbatim>\<open>err != nil && err != io.EOF\<close>; both go on with
  \<open>cont\<close>.
\<close>

definition lexStrict :: "nat \<Rightarrow> lexer \<Rightarrow> (lexer \<Rightarrow> stop + 'a \<times> lexer) \<Rightarrow> stop + 'a \<times> lexer" where
  "lexStrict k l cont =
     (case lex k l of
        Inl e \<Rightarrow> Inl (Panicked e)
      | Inr (err, l1) \<Rightarrow>
          (case err of Some e \<Rightarrow> Inl (Returned e) | None \<Rightarrow> cont l1))"

definition lexLenient :: "nat \<Rightarrow> lexer \<Rightarrow> (lexer \<Rightarrow> stop + 'a \<times> lexer) \<Rightarrow> stop + 'a \<times> lexer" where
  "lexLenient k l cont =
     (case lex k l of
        Inl e \<Rightarrow> Inl (Panicked e)
      | Inr (err, l1) \<Rightarrow>
          (case err of
             Some e \<Rightarrow> if e \<noteq> EOF then Inl (Returned e) else cont l1
           | None \<Rightarrow> cont l1))"

definition errorsNew :: "string \<Rightarrow> stop + 'a" where
  "errorsNew msg = Inl (Returned (ErrorString msg))"

definition quoted :: "string \<Rightarrow> string" where
  "quoted s = CHR 0x27 # s @ [CHR 0x27]"

text \<open>
  \<^verbatim>\<open>strconv.ParseInt(s, 10, 0)\<close>: an optional sign and decimal digits, within the range
  of a 64-bit integer. \<^verbatim>\<open>strconv.ParseFloat\<close> is a parameter \<open>pf\<close> of the parser.
\<close>

definition MaxInt64 :: int where
  "MaxInt64 = 9223372036854775807"

definition decimal :: "string \<Rightarrow> int" where
  "decimal ds = foldl (\<lambda>n c. 10 * n + (of_char c - 48)) 0 ds"

definition ParseInt :: "string \<Rightarrow> goerror + int" where
  "ParseInt s =
     (let neg = (s \<noteq> [] \<and> hd s = CHR ''-'');
          ds = (if s \<noteq> [] \<and> (hd s = CHR ''+'' \<or> hd s = CHR ''-'') then tl s else s) in
      if ds = [] \<or> \<not> list_all (\<lambda>c. isDigit (rune c)) ds then Inl ErrSyntax
      else let v = decimal ds in
        if \<not> neg \<and> MaxInt64 < v \<or> neg \<and> MaxInt64 + 1 < v then Inl ErrRange
        else Inr (if neg then - v else v))"

definition parseRange ::
  "(string \<Rightarrow> goerror + float64) \<Rightarrow> nat \<Rightarrow> lexer \<Rightarrow> stop + Range \<times> lexer" where
  "parseRange pf k l =
     lexStrict k l (\<lambda>l.
       if l_token l \<noteq> numberToken then errorsNew ''expected a number''
       else (case pf (l_value l) of
          Inl e \<Rightarrow> Inl (Returned e)
        | Inr mn \<Rightarrow>
            lexStrict k l (\<lambda>l.
              if l_token l \<noteq> rune CHR '','' then errorsNew (''expected '' @ quoted '','')
              else lexStrict k l (\<lambda>l.
                if l_token l \<noteq> numberToken then errorsNew ''expected a number''
                else (case pf (l_value l) of
                   Inl e \<Rightarrow> Inl (Returned e)
                 | Inr mx \<Rightarrow>
                     lexStrict k l (\<lambda>l.
                       if l_token l \<noteq> rune CHR '']'' then errorsNew (''expected '' @ quoted '']'')
                       else lexStrict k l (\<lambda>l. Inr (\<lparr>Min = mn, Max = mx\<rparr>, l))))))))"

definition isBasicTypeName :: "string \<Rightarrow> bool" where
  "isBasicTypeName name =
     (name = ''custom-ident'' \<or> name = ''dashed-ident'' \<or> name = ''string'' \<or> name = ''url''
      \<or> name = ''color'')"

definition allowsRangeName :: "string \<Rightarrow> bool" where
  "allowsRangeName name =
     (name = ''integer'' \<or> name = ''number'' \<or> name = ''dimension'' \<or> name = ''percentage''
      \<or> name = ''ratio'' \<or> name = ''length'' \<or> name = ''angle'' \<or> name = ''time''
      \<or> name = ''frequency'' \<or> name = ''resolution'')"

definition parseType ::
  "(string \<Rightarrow> goerror + float64) \<Rightarrow> nat \<Rightarrow> lexer \<Rightarrow> stop + Term \<times> lexer" where
  "parseType pf k l =
     lexStrict k l (\<lambda>l.
       if l_token l = identToken then
         (let name = l_value l in
          lexStrict k l (\<lambda>l.
            let isBasicType = (isBasicTypeName name \<or> allowsRangeName name);
                allowsRange = allowsRangeName name in
            (case (if allowsRange \<and> l_token l = rune CHR ''['' then
                     (case parseRange pf k l of
                        Inl s \<Rightarrow> Inl s
                      | Inr (rng, l1) \<Rightarrow> Inr (Some rng, l1))
                   else Inr (None, l)) of
               Inl s \<Rightarrow> Inl s
             | Inr (r, l) \<Rightarrow>
                 if l_token l \<noteq> rune CHR ''>'' then errorsNew (''expected '' @ quoted ''>'')
                 else lexLenient k l (\<lambda>l.
                   if isBasicType then Inr (BasicType name r, l)
                   else Inr (NonTerminal name, l)))))
       else if l_token l = rune CHR 0x27 then
         lexStrict k l (\<lambda>l.
           if l_token l \<noteq> identToken then errorsNew ''expected an identifier''
           else (let name = l_value l in
             lexStrict k l (\<lambda>l.
               if l_token l \<noteq> rune CHR 0x27 then errorsNew (''expected '' @ [CHR 0x27])
               else lexStrict k l (\<lambda>l.
                 if l_token l \<noteq> rune CHR ''>'' then errorsNew (''expected '' @ quoted ''>'')
                 else lexLenient k l (\<lambda>l. Inr (PropertyType name, l))))))
       else errorsNew (''expected an identifier or '' @ [CHR 0x27]))"

text \<open>
  \<open>po\<close> stands for \<^verbatim>\<open>parseOneOf\<close> in the functions it calls back from: the recursion
  of the parser goes through the groups.
\<close>

definition parseGroup ::
  "(lexer \<Rightarrow> stop + Term \<times> lexer) \<Rightarrow> nat \<Rightarrow> lexer \<Rightarrow> stop + Term \<times> lexer" where
  "parseGroup po k l =
     lexStrict k l (\<lambda>l.
       (case (if l_token l = rune CHR ''?'' then
                lexStrict k l (\<lambda>l.
                  if l_token l \<noteq> identToken then errorsNew ''expected ident''
                  else (let name = l_value l in lexStrict k l (\<lambda>l. Inr (name, l))))
              else Inr ([], l)) of
          Inl s \<Rightarrow> Inl s
        | Inr (name, l) \<Rightarrow>
            (case po l of
               Inl s \<Rightarrow> Inl s
             | Inr (operand, l) \<Rightarrow>
                 if l_token l \<noteq> rune CHR '']'' then errorsNew (''expected '' @ quoted '']'')
                 else lexLenient k l (\<lambda>l. Inr (Group name False operand, l)))))"

definition parseMultipliable ::
  "(string \<Rightarrow> goerror + float64) \<Rightarrow> (lexer \<Rightarrow> stop + Term \<times> lexer) \<Rightarrow> nat \<Rightarrow> lexer
     \<Rightarrow> stop + Term option \<times> lexer" where
  "parseMultipliable pf po k l =
     (if l_token l = rune CHR ''['' then
        (case parseGroup po k l of Inl s \<Rightarrow> Inl s | Inr (g, l1) \<Rightarrow> Inr (Some g, l1))
      else if l_token l = rune CHR ''<'' then
        (case parseType pf k l of Inl s \<Rightarrow> Inl s | Inr (t, l1) \<Rightarrow> Inr (Some t, l1))
      else if l_token l = identToken then
        (let v = l_value l in lexLenient k l (\<lambda>l. Inr (Some (Keyword v), l)))
      else if l_token l = literalToken then
        (let v = l_value l in lexLenient k l (\<lambda>l. Inr (Some (Literal v), l)))
      else if l_token l = rune CHR '','' then
        lexLenient k l (\<lambda>l. Inr (Some (Literal (encodeRune (l_token l))), l))
      else if l_token l = 0 then Inr (None, l)
      else errorsNew ''expected a group, type, keyword, or literal'')"

definition parseMultiplier ::
  "(string \<Rightarrow> goerror + float64) \<Rightarrow> (lexer \<Rightarrow> stop + Term \<times> lexer) \<Rightarrow> nat \<Rightarrow> lexer
     \<Rightarrow> stop + Term option \<times> lexer" where
  "parseMultiplier pf po k l =
     (case parseMultipliable pf po k l of
        Inl s \<Rightarrow> Inl s
      | Inr (None, l) \<Rightarrow> Inr (None, l)
      | Inr (Some operand, l) \<Rightarrow>
          if l_token l = rune CHR ''*'' then
            lexLenient k l (\<lambda>l. Inr (Some (ZeroOrMore operand), l))
          else if l_token l = rune CHR ''+'' then
            lexLenient k l (\<lambda>l. Inr (Some (OneOrMore operand), l))
          else if l_token l = rune CHR ''?'' then
            lexLenient k l (\<lambda>l. Inr (Some (ZeroOrOne operand), l))
          else if l_token l = rune CHR ''!'' then
            (case operand of
               Group name required inner \<Rightarrow>
                 lexLenient k l (\<lambda>l. Inr (Some (Group name True inner), l))
             | _ \<Rightarrow> errorsNew ''expected a group'')
          else if l_token l = rune CHR ''#'' \<or> l_token l = rune CHR ''{'' then
            (case (if l_token l = rune CHR ''#'' then
                     lexLenient k l (\<lambda>l.
                       if l_token l \<noteq> rune CHR ''{'' then
                         Inr (Some (Repeat 1 MaxInt64 True operand), l)
                       else Inr (None, l))
                   else Inr (None, l)) of
               Inl s \<Rightarrow> Inl s
             | Inr (Some done, l) \<Rightarrow> Inr (Some done, l)
             | Inr (None, l1) \<Rightarrow>
                 (let commas = (l_token l = rune CHR ''#'') in
                  lexStrict k l1 (\<lambda>l.
                    if l_token l \<noteq> numberToken then errorsNew ''expected a number''
                    else (case ParseInt (l_value l) of
                       Inl e \<Rightarrow> Inl (Returned e)
                     | Inr mn \<Rightarrow>
                         lexStrict k l (\<lambda>l.
                           (case (if l_token l = rune CHR '','' then
                                    lexStrict k l (\<lambda>l.
                                      if l_token l = numberToken then
                                        (case ParseInt (l_value l) of
                                           Inl e \<Rightarrow> Inl (Returned e)
                                         | Inr mx \<Rightarrow> lexStrict k l (\<lambda>l. Inr (mx, l)))
                                      else Inr (MaxInt64, l))
                                  else Inr (mn, l)) of
                              Inl s \<Rightarrow> Inl s
                            | Inr (mx, l) \<Rightarrow>
                                if l_token l \<noteq> rune CHR ''}'' then
                                  errorsNew (''expected '' @ quoted ''}'')
                                else lexLenient k l (\<lambda>l.
                                  Inr (Some (Repeat mn mx commas operand), l))))))))
          else Inr (Some operand, l))"

text \<open>The loop of \<^verbatim>\<open>parseSeq\<close>; \<open>pm\<close> stands for \<^verbatim>\<open>parseMultiplier\<close>.\<close>

primrec seqLoop ::
  "nat \<Rightarrow> (lexer \<Rightarrow> stop + Term option \<times> lexer) \<Rightarrow> Term list \<Rightarrow> lexer
     \<Rightarrow> stop + Term list \<times> lexer" where
  "seqLoop 0 pm operands l = Inl (Panicked OutOfFuel)"
| "seqLoop (Suc j) pm operands l =
     (case pm l of
        Inl s \<Rightarrow> Inl s
      | Inr (None, l) \<Rightarrow> Inr (operands, l)
      | Inr (Some operand, l) \<Rightarrow>
          if l_token l = rune CHR '']'' \<or> l_token l = rune CHR ''|''
             \<or> l_token l = anyOfToken \<or> l_token l = allOfToken
          then Inr (operands @ [operand], l)
          else seqLoop j pm (operands @ [operand]) l)"

definition parseSeq ::
  "(lexer \<Rightarrow> stop + Term option \<times> lexer) \<Rightarrow> nat \<Rightarrow> lexer \<Rightarrow> stop + Term \<times> lexer" where
  "parseSeq pm k l =
     (case (if l_token l = rune CHR ''?'' then
              lexStrict k l (\<lambda>l.
                if l_token l \<noteq> identToken then errorsNew ''expected ident''
                else (let name = l_value l in lexStrict k l (\<lambda>l. Inr (name, l))))
            else Inr ([], l)) of
        Inl s \<Rightarrow> Inl s
      | Inr (name, l) \<Rightarrow>
          (case seqLoop k pm [] l of
             Inl s \<Rightarrow> Inl s
           | Inr (operands, l) \<Rightarrow>
               if length operands = 1 \<and> name = [] then Inr (operands ! 0, l)
               else Inr (Seq name operands, l)))"

text \<open>
  The loops of \<^verbatim>\<open>parseAllOf\<close>, \<^verbatim>\<open>parseAnyOf\<close> and \<^verbatim>\<open>parseOneOf\<close> are the same
  but for the separating token and the function that parses an operand.
\<close>

primrec operandsLoop ::
  "nat \<Rightarrow> nat \<Rightarrow> int \<Rightarrow> (lexer \<Rightarrow> stop + Term \<times> lexer) \<Rightarrow> Term list \<Rightarrow> lexer
     \<Rightarrow> stop + Term list \<times> lexer" where
  "operandsLoop 0 k sep sub operands l = Inl (Panicked OutOfFuel)"
| "operandsLoop (Suc j) k sep sub operands l =
     (case sub l of
        Inl s \<Rightarrow> Inl s
      | Inr (operand, l) \<Rightarrow>
          if l_token l \<noteq> sep then Inr (operands @ [operand], l)
          else lexStrict k l (\<lambda>l. operandsLoop j k sep sub (operands @ [operand]) l))"

definition parseAllOf ::
  "(lexer \<Rightarrow> stop + Term \<times> lexer) \<Rightarrow> nat \<Rightarrow> lexer \<Rightarrow> stop + Term \<times> lexer" where
  "parseAllOf ps k l =
     (case operandsLoop k k allOfToken ps [] l of
        Inl s \<Rightarrow> Inl s
      | Inr (operands, l) \<Rightarrow>
          if length operands = 1 then Inr (operands ! 0, l) else Inr (AllOf operands, l))"

definition parseAnyOf ::
  "(lexer \<Rightarrow> stop + Term \<times> lexer) \<Rightarrow> nat \<Rightarrow> lexer \<Rightarrow> stop + Term \<times> lexer" where
  "parseAnyOf pall k l =
     (case operandsLoop k k anyOfToken pall [] l of
        Inl s \<Rightarrow> Inl s
      | Inr (operands, l) \<Rightarrow>
          if length operands = 1 then Inr (operands ! 0, l) else Inr (AnyOf operands, l))"

text \<open>
  \<^verbatim>\<open>parseOneOf\<close>, with fuel for the recursion through the groups and for the loops.
\<close>

primrec parseOneOf ::
  "(string \<Rightarrow> goerror + float64) \<Rightarrow> nat \<Rightarrow> lexer \<Rightarrow> stop + Term \<times> lexer" where
  "parseOneOf pf 0 l = Inl (Panicked OutOfFuel)"
| "parseOneOf pf (Suc k) l =
     (case operandsLoop k k (rune CHR ''|'')
             (parseAnyOf (parseAllOf (parseSeq (parseMultiplier pf (parseOneOf pf k) k) k) k) k)
             [] l of
        Inl s \<Rightarrow> Inl s
      | Inr (operands, l) \<Rightarrow>
          if length operands = 1 then Inr (operands ! 0, l) else Inr (OneOf operands, l))"

definition newLexer :: "string \<Rightarrow> lexer" where
  "newLexer s = \<lparr>l_r = s, l_buf = 0, l_err = None, l_nb = 0, l_token = 0, l_value = []\<rparr>"

definition ParseGrammar :: "(string \<Rightarrow> goerror + float64) \<Rightarrow> nat \<Rightarrow> string \<Rightarrow> stop + Term" where
  "ParseGrammar pf k s =
     (case lexStrict k (newLexer s) (\<lambda>l. parseOneOf pf k l) of
        Inl s \<Rightarrow> Inl s
      | Inr (t, l) \<Rightarrow>
          if l_token l \<noteq> 0 then Inl (Returned (ErrorString ''expected EOF''))
          else Inr t)"


section \<open>Invariants of the matcher state\<close>

text \<open>
  \<open>stream\<close> is what the matcher will ever see of a value stream: whitespace is
  dropped and the stream ends at the first error token. \<open>allTokens\<close> are the tokens
  already buffered followed by those still to come from the tokenizer, and \<open>upcoming\<close>
  are the ones not yet consumed. \<open>grows\<close> relates the state on entry to a matching
  function with the state it returns; \<open>consistent\<close> says that the accumulated result is
  exactly the consumed part of the buffer.
\<close>

definition stream :: "Token list \<Rightarrow> Token list" where
  "stream l =
     filter (\<lambda>t. Type t \<noteq> WhitespaceToken) (takeWhile (\<lambda>t. Type t \<noteq> ErrorToken) l)"

definition allTokens :: "matcher \<Rightarrow> Token list" where
  "allTokens m = buffer m @ stream (lexer m)"

definition grows :: "matcher \<Rightarrow> matcher \<Rightarrow> bool" where
  "grows m m' \<longleftrightarrow>
     (\<exists>ts. result m' = result m @ ts) \<and> (\<exists>cs. captures m' = captures m @ cs)
     \<and> (\<exists>bs. buffer m' = buffer m @ bs) \<and> allTokens m' = allTokens m"

definition growing :: "(Term \<Rightarrow> matcher \<Rightarrow> res) \<Rightarrow> bool" where
  "growing mt \<longleftrightarrow> (\<forall>t m b m'. mt t m = Inr (b, m') \<longrightarrow> grows m m')"

definition upcoming :: "matcher \<Rightarrow> Token list" where
  "upcoming m = drop (offset m) (buffer m) @ stream (lexer m)"

definition consistent :: "matcher \<Rightarrow> bool" where
  "consistent m \<longleftrightarrow> offset m \<le> length (buffer m) \<and> result m = take (offset m) (buffer m)"

definition steady :: "(Term \<Rightarrow> matcher \<Rightarrow> res) \<Rightarrow> bool" where
  "steady mt \<longleftrightarrow> (\<forall>t m b m'. consistent m \<and> mt t m = Inr (b, m') \<longrightarrow> consistent m')"

section \<open>Terms that test a single token\<close>

text \<open>
  A keyword, a literal and every basic type other than \<^verbatim>\<open>ratio\<close> match by a test
  on the next token alone (a basic type does so unless that token opens a function
  call). \<open>accepts t tok\<close> is that test as the matcher's documentation states it; the
  lemmas on \<open>match\<close> below show that the code performs it.
\<close>

fun singleToken :: "Term \<Rightarrow> bool" where
  "singleToken (Keyword k) = True"
| "singleToken (Literal c) = True"
| "singleToken (BasicType name rng) =
     (name = ''custom-ident'' \<or> name = ''dashed-ident'' \<or> name = ''string''
      \<or> name = ''url'' \<or> name = ''color'' \<or> name = ''integer'' \<or> name = ''number''
      \<or> name = ''percentage'' \<or> name = ''dimension'' \<or> name = ''length''
      \<or> name = ''angle'' \<or> name = ''time'' \<or> name = ''frequency''
      \<or> name = ''resolution'')"
| "singleToken _ = False"

fun accepts :: "Term \<Rightarrow> Token \<Rightarrow> bool" where
  "accepts (Keyword k) tok = (Type tok = IdentToken \<and> Value tok = k)"
| "accepts (Literal c) tok = (Type tok = literalKind c \<and> Value tok = c)"
| "accepts (BasicType name rng) tok =
     (if name = ''custom-ident'' \<or> name = ''dashed-ident'' then Type tok = IdentToken
      else if name = ''string'' then Type tok = StringToken
      else if name = ''url'' then Type tok = URLToken
      else if name = ''color'' then Type tok = HashToken \<or> Type tok = IdentToken
      else if name = ''integer'' \<or> name = ''number'' then Type tok = NumberToken
      else if name = ''percentage'' then Type tok = PercentageToken
      else if name = ''dimension'' \<or> name = ''length'' \<or> name = ''angle''
            \<or> name = ''time'' \<or> name = ''frequency'' \<or> name = ''resolution''
        then Type tok = DimensionToken
      else False)"
| "accepts _ tok = False"

definition bindingContext :: Context where
  "bindingContext =
     \<lparr>Properties = [''width'' \<mapsto> BasicType ''number'' None],
      NonTerminals = [''width'' \<mapsto> BasicType ''number'' None],
      Functions = Map.empty\<rparr>"

definition kwInset :: Token where "kwInset = \<lparr>Type = IdentToken, Value = ''inset''\<rparr>"
definition len2px :: Token where "len2px = \<lparr>Type = DimensionToken, Value = ''2px''\<rparr>"
definition num3 :: Token where "num3 = \<lparr>Type = NumberToken, Value = ''3''\<rparr>"
definition space :: Token where "space = \<lparr>Type = WhitespaceToken, Value = '' ''\<rparr>"

definition num1 :: Token where "num1 = \<lparr>Type = NumberToken, Value = ''1''\<rparr>"
definition num2 :: Token where "num2 = \<lparr>Type = NumberToken, Value = ''2''\<rparr>"
definition num4 :: Token where "num4 = \<lparr>Type = NumberToken, Value = ''4''\<rparr>"
definition num5 :: Token where "num5 = \<lparr>Type = NumberToken, Value = ''5''\<rparr>"
definition comma :: Token where "comma = \<lparr>Type = CommaToken, Value = '',''\<rparr>"
definition identA :: Token where "identA = \<lparr>Type = IdentToken, Value = ''a''\<rparr>"

definition pct5 :: Token where "pct5 = \<lparr>Type = PercentageToken, Value = ''5%''\<rparr>"

definition insetLengthsPercentage :: "(Term \<times> Token list) list" where
  "insetLengthsPercentage =
     [(Keyword ''inset'', [kwInset]),
      (Repeat 2 4 False (BasicType ''length'' None), [len2px, len2px]),
      (BasicType ''percentage'' None, [pct5])]"

section \<open>Operands and the values they match\<close>

text \<open>
  An operand \<open>takes\<close> a value before the tokens \<open>rest\<close> when, wherever the value and then
  \<open>rest\<close> are what is to come, matching the operand succeeds and leaves exactly \<open>rest\<close>
  to come; it \<open>refuses\<close> the tokens to come when matching it there fails. In an all-of,
  what \<open>follows\<close> the value of an operand is the rest of the stream or a value of
  another operand.
\<close>

definition takes :: "nat \<Rightarrow> Context \<Rightarrow> Term \<Rightarrow> Token list \<Rightarrow> Token list \<Rightarrow> bool" where
  "takes k ctx t v rest \<longleftrightarrow>
     (\<forall>m. consistent m \<and> upcoming m = v @ rest \<longrightarrow>
        (\<exists>m'. match k ctx t m = Inr (True, m') \<and> upcoming m' = rest))"

definition refuses :: "nat \<Rightarrow> Context \<Rightarrow> Term \<Rightarrow> Token list \<Rightarrow> bool" where
  "refuses k ctx t toks \<longleftrightarrow>
     (\<forall>m. consistent m \<and> upcoming m = toks \<longrightarrow> (\<exists>m'. match k ctx t m = Inr (False, m')))"

definition follows ::
  "(Term \<times> Token list) list \<Rightarrow> Term \<times> Token list \<Rightarrow> Token list \<Rightarrow> Token list \<Rightarrow> bool" where
  "follows pws x rest toks \<longleftrightarrow>
     toks = rest \<or> (\<exists>y\<in>set pws. y \<noteq> x \<and> (\<exists>us. toks = snd y @ us))"

text \<open>
  The values \<open>vs\<close> of the repetitions of a repeat as they stand in the stream, with the
  comma \<open>c\<close> between them when the repeat has commas.
\<close>

fun separated :: "Token \<Rightarrow> Token list list \<Rightarrow> Token list" where
  "separated c [] = []"
| "separated c (v # vs) = v @ concat (map (\<lambda>w. c # w) vs)"

definition repetitions :: "bool \<Rightarrow> Token \<Rightarrow> Token list list \<Rightarrow> Token list" where
  "repetitions commas c vs = (if commas then separated c vs else concat vs)"





section \<open>The accumulated result and captures only grow\<close>

text \<open>
  Between the entry and the return of any matching function the result and the captures
  are extended at their ends, never cut below their entry lengths. This is what makes
  the slices \<^verbatim>\<open>m.result[:sr]\<close> and \<^verbatim>\<open>m.captures[:sc]\<close> of the rollback, and
  the slices \<^verbatim>\<open>m.result[c:]\<close> of the captures, stay within bounds.
\<close>

lemma growingD: "growing mt \<Longrightarrow> mt t m = Inr (b, m') \<Longrightarrow> grows m m'"
  by (auto simp: growing_def)

lemma grows_refl [simp]: "grows m m"
  by (simp add: grows_def)

lemma grows_trans: "grows a b \<Longrightarrow> grows b c \<Longrightarrow> grows a c"
  by (auto simp: grows_def)

lemma grows_fields [simp]:
  "grows m (m'\<lparr>offset := k\<rparr>) = grows m m'"
  by (simp_all add: grows_def allTokens_def)

lemma grows_capture [simp]:
  "grows m m' \<Longrightarrow> grows m (m'\<lparr>captures := captures m' @ cs\<rparr>)"
  by (auto simp: grows_def allTokens_def)

lemma stream_Next:
  assumes "lexer_Next l = (tok, l')"
  shows "stream l =
     (if Type tok = ErrorToken then [] else if Type tok \<noteq> WhitespaceToken then [tok] else [])
       @ stream l'"
proof (cases l)
  case Nil
  with assms show ?thesis by (auto simp: lexer_Next_def stream_def)
next
  case (Cons a as)
  with assms show ?thesis by (auto simp: lexer_Next_def stream_def split: if_splits)
qed

lemma peek_keeps:
  "peek n m = Inr (t, m') \<Longrightarrow>
     offset m' = offset m \<and> result m' = result m \<and> captures m' = captures m
     \<and> (\<exists>bs. buffer m' = buffer m @ bs) \<and> allTokens m' = allTokens m"
proof (induction n m rule: peek.induct)
  case (1 n m)
  note eq = "1.prems" [unfolded peek.simps [of n m]]
  show ?case
  proof (cases "\<not> length (buffer m) < offset m \<and> length (buffer m) - offset m < n")
    case False
    with eq show ?thesis by (auto split: if_splits)
  next
    case True
    then have c1: "\<not> length (buffer m) < offset m" and c2: "length (buffer m) - offset m < n"
      by simp_all
    obtain tok l' where nx: "lexer_Next (lexer m) = (tok, l')"
      by (cases "lexer_Next (lexer m)")
    note st = stream_Next [OF nx]
    show ?thesis
    proof (cases "Type tok = ErrorToken")
      case True
      with eq c1 c2 nx have "m' = m\<lparr>lexer := l'\<rparr>" by simp
      with st True show ?thesis by (simp add: allTokens_def)
    next
      case ne: False
      show ?thesis
      proof (cases "Type tok \<noteq> WhitespaceToken")
        case True
        with eq c1 c2 nx ne
        have "peek n (m\<lparr>buffer := buffer m @ [tok], lexer := l'\<rparr>) = Inr (t, m')" by simp
        from "1.IH"(1) [OF c1 c2 nx [symmetric] ne True this] st ne True
        show ?thesis by (auto simp: allTokens_def)
      next
        case False
        with eq c1 c2 nx ne
        have "peek n (m\<lparr>lexer := l'\<rparr>) = Inr (t, m')" by simp
        from "1.IH"(2) [OF c1 c2 nx [symmetric] ne False this] st ne False
        show ?thesis by (auto simp: allTokens_def)
      qed
    qed
  qed
qed

lemma peek_grows: "peek n m = Inr (t, m') \<Longrightarrow> grows m m'"
  by (drule peek_keeps) (simp add: grows_def)

lemma grows_rollback:
  "grows m m1 \<Longrightarrow>
     grows m (m1\<lparr>offset := so, result := take (length (result m)) (result m1),
                  captures := take (length (captures m)) (captures m1)\<rparr>)"
  by (auto simp: grows_def allTokens_def)

lemma chomp_grows: "chomp m = Inr m' \<Longrightarrow> grows m m'"
  by (auto simp: chomp_def grows_def allTokens_def split: if_splits)

lemma expectNext_grows: "expectNext ok m = Inr (b, m') \<Longrightarrow> grows m m'"
  by (auto simp: expectNext_def split: sum.splits prod.splits if_splits
      dest!: peek_grows chomp_grows intro: grows_trans)

lemma matchParams_grows:
  "growing mt \<Longrightarrow> matchParams mt s ts m = Inr (b, m') \<Longrightarrow> grows m m'"
proof (induction ts arbitrary: m)
  case Nil
  then show ?case by simp
next
  case (Cons t ts)
  from Cons.prems obtain b1 m1 where m1: "mt t m = Inr (b1, m1)"
    by (auto split: sum.splits)
  then have g1: "grows m m1" by (rule growingD [OF Cons.prems(1)])
  show ?case
  proof (cases b1)
    case False
    with m1 Cons.prems g1 show ?thesis by auto
  next
    case True
    note b1 = True
    show ?thesis
    proof (cases "ts = []")
      case True
      with b1 m1 Cons.prems g1 show ?thesis by auto
    next
      case False
      with b1 m1 Cons.prems obtain nx m2 where p: "peek 1 m1 = Inr (nx, m2)"
        by (auto split: sum.splits)
      then have g2: "grows m1 m2" by (rule peek_grows)
      show ?thesis
      proof (cases "Type nx = CommaToken")
        case True
        with b1 m1 p False Cons.prems obtain m3 where
          c: "chomp m2 = Inr m3" and r: "matchParams mt s ts m3 = Inr (b, m')"
          by (auto split: sum.splits)
        from Cons.IH [OF Cons.prems(1) r] chomp_grows [OF c] g1 g2 show ?thesis
          by (blast intro: grows_trans)
      next
        case nc: False
        with b1 m1 p False Cons.prems have r: "matchParams mt s ts m2 = Inr (b, m')"
          by auto
        from Cons.IH [OF Cons.prems(1) r] g1 g2 show ?thesis
          by (blast intro: grows_trans)
      qed
    qed
  qed
qed


lemma matchFunction_grows:
  assumes "growing mt" and "matchFunction mt ctx m = Inr (f, m')"
  shows "grows m m'"
  using assms(2)
  apply (auto simp: matchFunction_def Let_def split: sum.splits prod.splits if_splits option.splits
      dest!: peek_grows chomp_grows matchParams_grows [OF assms(1)])
    apply (blast intro: grows_trans)+
  done

lemma if_eqE:
  assumes "(if c then x else y) = r"
  obtains "x = r" | "y = r"
  using assms by (cases c) simp_all

lemma matchBasicType_grows:
  assumes "growing mt" and "matchBasicType mt ctx name m = Inr (b, m')"
  shows "grows m m'"
proof -
  from assms(2) obtain first m1 where p: "peek 1 m = Inr (first, m1)"
    by (auto simp: matchBasicType_def split: sum.splits)
  then have g1: "grows m m1" by (rule peek_grows)
  have "grows m1 m'"
  proof (cases "Type first = FunctionToken")
    case True
    with assms(2) p show ?thesis
      by (auto simp: matchBasicType_def split: sum.splits prod.splits option.splits
          dest!: matchFunction_grows [OF assms(1)])
  next
    case False
    from assms(2)
    have "(\<exists>ok. expectNext ok m1 = Inr (b, m')) \<or> mt ratioTerm m1 = Inr (b, m')"
      unfolding matchBasicType_def p sum.case prod.case if_not_P [OF False]
      by (elim if_eqE) (blast | simp)+
    then show ?thesis
      using expectNext_grows growingD [OF assms(1)] by blast
  qed
  with g1 show ?thesis by (rule grows_trans)
qed

lemma matchPropertyType_grows:
  "growing mt \<Longrightarrow> matchPropertyType mt ctx t m = Inr (b, m') \<Longrightarrow> grows m m'"
  by (auto simp: matchPropertyType_def Let_def split: option.splits sum.splits prod.splits if_splits
      dest: growingD)

lemma matchNonTerminal_grows:
  "growing mt \<Longrightarrow> matchNonTerminal mt ctx t m = Inr (b, m') \<Longrightarrow> grows m m'"
  by (auto simp: matchNonTerminal_def Let_def split: option.splits sum.splits prod.splits if_splits
      dest: growingD)

lemma matchOperands_grows:
  "growing mt \<Longrightarrow> matchOperands mt ts m = Inr (b, m') \<Longrightarrow> grows m m'"
proof (induction ts arbitrary: m)
  case Nil
  then show ?case by simp
next
  case (Cons t ts)
  then show ?case
    by (auto split: sum.splits prod.splits if_splits dest: growingD intro: grows_trans)
qed

lemma matchSeq_grows:
  "growing mt \<Longrightarrow> matchSeq mt name ts m = Inr (b, m') \<Longrightarrow> grows m m'"
  by (auto simp: matchSeq_def Let_def split: sum.splits prod.splits if_splits
      dest: matchOperands_grows)

lemma scanPending_grows:
  "growing mt \<Longrightarrow> scanPending mt skipped ts m = Inr (r, m') \<Longrightarrow> grows m m'"
proof (induction ts arbitrary: m skipped)
  case Nil
  then show ?case by simp
next
  case (Cons t ts)
  then show ?case
    by (auto split: sum.splits prod.splits if_splits dest: growingD intro: grows_trans)
qed

lemma allOfLoop_grows:
  "growing mt \<Longrightarrow> allOfLoop mt pending m = Inr (b, m') \<Longrightarrow> grows m m'"
proof (induction mt pending m rule: allOfLoop.induct)
  case (1 mt pending m)
  note eq = "1.prems"(2) [unfolded allOfLoop.simps [of mt pending m]]
  show ?case
  proof (cases "length pending \<noteq> 0")
    case False
    with eq show ?thesis by simp
  next
    case True
    with eq obtain nx m1 where p: "peek 1 m = Inr (nx, m1)"
      by (auto split: sum.splits)
    then have g1: "grows m m1" by (rule peek_grows)
    show ?thesis
    proof (cases "Type nx = ErrorToken")
      case True
      with \<open>length pending \<noteq> 0\<close> p eq g1 show ?thesis
        by auto
    next
      case False
      with \<open>length pending \<noteq> 0\<close> p eq obtain r m2 where
        s: "scanPending mt [] pending m1 = Inr (r, m2)"
        by (auto split: sum.splits)
      then have g2: "grows m1 m2" using "1.prems"(1) by (auto dest: scanPending_grows)
      show ?thesis
      proof (cases r)
        case None
        with \<open>length pending \<noteq> 0\<close> p False s eq g1 g2 show ?thesis
          by (auto intro: grows_trans)
      next
        case (Some pending')
        with \<open>length pending \<noteq> 0\<close> p False s eq
        have r: "allOfLoop mt pending' m2 = Inr (b, m')"
          by auto
        have "grows m2 m'"
          using "1.IH" [OF \<open>length pending \<noteq> 0\<close> p refl False s refl Some "1.prems"(1) r] .
        with g1 g2 show ?thesis by (blast intro: grows_trans)
      qed
    qed
  qed
qed


lemma matchOneOf_grows:
  "growing mt \<Longrightarrow> matchOneOf mt ts m = Inr (b, m') \<Longrightarrow> grows m m'"
proof (induction ts arbitrary: m)
  case Nil
  then show ?case by simp
next
  case (Cons t ts)
  then show ?case
    by (auto split: sum.splits prod.splits if_splits dest: growingD intro: grows_trans)
qed

lemma whileMatch_grows:
  "\<forall>m b m'. cond m = Inr (b, m') \<longrightarrow> grows m m' \<Longrightarrow>
     whileMatch k cond m = Inr (b, m') \<Longrightarrow> grows m m'"
proof (induction k arbitrary: m)
  case 0
  then show ?case by simp
next
  case (Suc k)
  from Suc.prems(2) obtain b1 m1 where c: "cond m = Inr (b1, m1)"
    by (auto split: sum.splits)
  with Suc.prems(1) have g1: "grows m m1" by blast
  show ?case
  proof (cases b1)
    case True
    with c Suc.prems(2) have "whileMatch k cond m1 = Inr (b, m')" by simp
    with Suc.IH Suc.prems(1) have "grows m1 m'" by blast
    with g1 show ?thesis by (rule grows_trans)
  next
    case False
    with c Suc.prems(2) g1 show ?thesis by simp
  qed
qed

lemma matchAnyOf_grows:
  assumes "growing mt" and "matchAnyOf k mt ts m = Inr (b, m')"
  shows "grows m m'"
proof -
  from assms(2) obtain b1 m1 where f: "matchOneOf mt ts m = Inr (b1, m1)"
    by (auto simp: matchAnyOf_def split: sum.splits)
  then have g1: "grows m m1" by (rule matchOneOf_grows [OF assms(1)])
  show ?thesis
  proof (cases b1)
    case True
    with f assms(2) have "whileMatch k (matchOneOf mt ts) m1 = Inr (b, m')"
      by (simp add: matchAnyOf_def)
    moreover have "\<forall>m b m'. matchOneOf mt ts m = Inr (b, m') \<longrightarrow> grows m m'"
      using matchOneOf_grows [OF assms(1)] by blast
    ultimately have "grows m1 m'" by (rule whileMatch_grows [rotated])
    with g1 show ?thesis by (rule grows_trans)
  next
    case False
    with f assms(2) g1 show ?thesis by (simp add: matchAnyOf_def)
  qed
qed

lemma matchGroup_grows:
  "growing mt \<Longrightarrow> matchGroup mt name t m = Inr (b, m') \<Longrightarrow> grows m m'"
  by (auto simp: matchGroup_def Let_def split: sum.splits prod.splits if_splits
      dest: growingD)

lemma matchZeroOrMore_grows:
  assumes "growing mt" and "matchZeroOrMore k mt t m = Inr (b, m')"
  shows "grows m m'"
proof -
  have "\<forall>m b m'. mt t m = Inr (b, m') \<longrightarrow> grows m m'"
    using growingD [OF assms(1)] by blast
  with assms(2) show ?thesis
    unfolding matchZeroOrMore_def by (rule whileMatch_grows [rotated])
qed

lemma matchOneOrMore_grows:
  assumes "growing mt" and "matchOneOrMore k mt t m = Inr (b, m')"
  shows "grows m m'"
proof -
  from assms(2) obtain b1 m1 where f: "mt t m = Inr (b1, m1)"
    by (auto simp: matchOneOrMore_def split: sum.splits)
  then have g1: "grows m m1" by (rule growingD [OF assms(1)])
  show ?thesis
  proof (cases b1)
    case True
    with f assms(2) have "whileMatch k (mt t) m1 = Inr (b, m')"
      by (simp add: matchOneOrMore_def)
    moreover have "\<forall>m b m'. mt t m = Inr (b, m') \<longrightarrow> grows m m'"
      using growingD [OF assms(1)] by blast
    ultimately have "grows m1 m'" by (rule whileMatch_grows [rotated])
    with g1 show ?thesis by (rule grows_trans)
  next
    case False
    with f assms(2) g1 show ?thesis by (simp add: matchOneOrMore_def)
  qed
qed

lemma matchZeroOrOne_grows:
  "growing mt \<Longrightarrow> matchZeroOrOne mt t m = Inr (b, m') \<Longrightarrow> grows m m'"
  by (auto simp: matchZeroOrOne_def split: sum.splits prod.splits dest: growingD)

lemma repeatLoop_grows:
  "growing mt \<Longrightarrow> repeatLoop mt mx commas t n m = Inr (r, m') \<Longrightarrow> grows m m'"
proof (induction mt mx commas t n m rule: repeatLoop.induct)
  case (1 mt mx commas t n m)
  note eq = "1.prems"(2) [unfolded repeatLoop.simps [of mt mx commas t n m]]
  show ?case
  proof (cases "int n < mx")
    case False
    with eq show ?thesis by simp
  next
    case True
    with eq obtain nx m1 where p: "peek 1 m = Inr (nx, m1)"
      by (auto split: sum.splits)
    then have g1: "grows m m1" by (rule peek_grows)
    show ?thesis
    proof (cases "Type nx = ErrorToken")
      case True
      with \<open>int n < mx\<close> p eq g1 show ?thesis by auto
    next
      case False
      define sep where "sep =
        (if n > 0 \<and> commas then
           (if Type nx \<noteq> CommaToken then Inr (False, m1)
            else (case chomp m1 of Inl e \<Rightarrow> Inl e | Inr m2 \<Rightarrow> Inr (True, m2)))
         else Inr (True, m1))"
      from \<open>int n < mx\<close> p False eq obtain go m2 where s: "sep = Inr (go, m2)"
        unfolding sep_def by (auto split: sum.splits)
      then have g2: "grows m1 m2"
        unfolding sep_def by (auto split: if_splits sum.splits dest: chomp_grows)
      show ?thesis
      proof (cases go)
        case False
        with \<open>int n < mx\<close> p \<open>Type nx \<noteq> ErrorToken\<close> s eq g1 g2 show ?thesis
          unfolding sep_def by (auto intro: grows_trans)
      next
        case True
        with \<open>int n < mx\<close> p \<open>Type nx \<noteq> ErrorToken\<close> s eq obtain b3 m3 where
          o: "mt t m2 = Inr (b3, m3)"
          unfolding sep_def by (auto split: sum.splits)
        then have g3: "grows m2 m3" by (rule growingD [OF "1.prems"(1)])
        show ?thesis
        proof (cases b3)
          case False
          with \<open>int n < mx\<close> p \<open>Type nx \<noteq> ErrorToken\<close> s True o eq
          have "m' = m3" unfolding sep_def by auto
          with g1 g2 g3 show ?thesis by (blast intro: grows_trans)
        next
          case b3: True
          with \<open>int n < mx\<close> p \<open>Type nx \<noteq> ErrorToken\<close> s True o eq
          have r: "repeatLoop mt mx commas t (n + 1) m3 = Inr (r, m')"
            unfolding sep_def by auto
          have "grows m3 m'"
            using "1.IH" [OF \<open>int n < mx\<close> p refl \<open>Type nx \<noteq> ErrorToken\<close>
                s [unfolded sep_def] refl _ o refl _ "1.prems"(1) r] True b3
            by simp
          with g1 g2 g3 show ?thesis by (blast intro: grows_trans)
        qed
      qed
    qed
  qed
qed

lemma matchRepeat_grows:
  "growing mt \<Longrightarrow> matchRepeat mt mn mx commas t m = Inr (b, m') \<Longrightarrow> grows m m'"
  by (auto simp: matchRepeat_def split: sum.splits prod.splits option.splits
      dest: repeatLoop_grows)


lemma dispatch_grows:
  assumes "growing mt" and "dispatch k mt ctx t m = Inr (b, m')"
  shows "grows m m'"
  using assms(2) unfolding dispatch_def
  by (cases t)
    (auto simp: matchKeyword_def matchLiteral_def matchAllOf_def Let_def
      dest: expectNext_grows matchBasicType_grows [OF assms(1)]
        matchPropertyType_grows [OF assms(1)] matchNonTerminal_grows [OF assms(1)]
        matchSeq_grows [OF assms(1)] allOfLoop_grows [OF assms(1)]
        matchAnyOf_grows [OF assms(1)] matchOneOf_grows [OF assms(1)]
        matchGroup_grows [OF assms(1)] matchZeroOrMore_grows [OF assms(1)]
        matchOneOrMore_grows [OF assms(1)] matchZeroOrOne_grows [OF assms(1)]
        matchRepeat_grows [OF assms(1)])

lemma match_Suc_cases:
  assumes "match (Suc n) ctx t m = Inr (b, m')"
  obtains (matched) "b" and "dispatch n (match n ctx) ctx t m = Inr (True, m')"
  | (failed) m1 where "\<not> b" and "dispatch n (match n ctx) ctx t m = Inr (False, m1)"
      and "m' = m1\<lparr>offset := offset m, result := take (length (result m)) (result m1),
                      captures := take (length (captures m)) (captures m1)\<rparr>"
  using assms by (auto simp: match.simps Let_def split: sum.splits if_splits)

lemma match_growing: "growing (match n ctx)"
proof (induction n)
  case 0
  show ?case by (simp add: growing_def match.simps)
next
  case (Suc n)
  show ?case
    unfolding growing_def
  proof (intro allI impI)
    fix t m b m'
    assume "match (Suc n) ctx t m = Inr (b, m')"
    then show "grows m m'"
    proof (cases rule: match_Suc_cases)
      case matched
      then show ?thesis by (auto dest: dispatch_grows [OF Suc.IH])
    next
      case (failed m1)
      from dispatch_grows [OF Suc.IH failed(2)] show ?thesis
        unfolding failed(3) by (rule grows_rollback)
    qed
  qed
qed

lemma match_rollback:
  assumes "match n ctx t m = Inr (False, m')"
  shows "offset m' = offset m \<and> result m' = result m \<and> captures m' = captures m"
proof (cases n)
  case 0
  with assms show ?thesis by (simp add: match.simps)
next
  case (Suc k)
  from assms [unfolded Suc] show ?thesis
  proof (cases rule: match_Suc_cases)
    case matched
    then show ?thesis by simp
  next
    case (failed m1)
    from dispatch_grows [OF match_growing failed(2)] failed(3) show ?thesis
      by (auto simp: grows_def)
  qed
qed


section \<open>The result is the consumed prefix of the stream\<close>

lemma steadyD: "steady mt \<Longrightarrow> consistent m \<Longrightarrow> mt t m = Inr (b, m') \<Longrightarrow> consistent m'"
  by (auto simp: steady_def)

lemma consistent_tokens: "consistent m \<Longrightarrow> result m @ upcoming m = allTokens m"
  by (simp add: consistent_def upcoming_def allTokens_def)

lemma consistent_captures [simp]:
  "consistent (m\<lparr>captures := cs\<rparr>) = consistent m"
  by (simp add: consistent_def)

lemma peek_consistent: "consistent m \<Longrightarrow> peek n m = Inr (t, m') \<Longrightarrow> consistent m'"
  by (drule peek_keeps) (auto simp: consistent_def)

lemma chomp_consistent: "consistent m \<Longrightarrow> chomp m = Inr m' \<Longrightarrow> consistent m'"
  by (auto simp: chomp_def consistent_def take_Suc_conv_app_nth split: if_splits)

lemma expectNext_consistent:
  "consistent m \<Longrightarrow> expectNext ok m = Inr (b, m') \<Longrightarrow> consistent m'"
  by (auto simp: expectNext_def split: sum.splits prod.splits if_splits
      dest: peek_consistent chomp_consistent)

lemma matchParams_consistent:
  "steady mt \<Longrightarrow> consistent m \<Longrightarrow> matchParams mt s ts m = Inr (True, m') \<Longrightarrow> consistent m'"
proof (induction ts arbitrary: m)
  case Nil
  then show ?case by simp
next
  case (Cons t ts)
  from Cons.prems(3) obtain b1 m1 where m1: "mt t m = Inr (b1, m1)"
    by (auto split: sum.splits)
  then have c1: "consistent m1" by (rule steadyD [OF Cons.prems(1,2)])
  from m1 Cons.prems(3) have b1: b1 by (auto split: if_splits)
  show ?case
  proof (cases "ts = []")
    case True
    with b1 m1 Cons.prems c1 show ?thesis by auto
  next
    case False
    with b1 m1 Cons.prems obtain nx m2 where p: "peek 1 m1 = Inr (nx, m2)"
      by (auto split: sum.splits)
    then have c2: "consistent m2" by (rule peek_consistent [OF c1])
    show ?thesis
    proof (cases "Type nx = CommaToken")
      case True
      with b1 m1 p False Cons.prems obtain m3 where
        c: "chomp m2 = Inr m3" and r: "matchParams mt s ts m3 = Inr (True, m')"
        by (auto split: sum.splits)
      from Cons.IH [OF Cons.prems(1) chomp_consistent [OF c2 c] r] show ?thesis .
    next
      case nc: False
      with b1 m1 p False Cons.prems have r: "matchParams mt s ts m2 = Inr (True, m')"
        by auto
      from Cons.IH [OF Cons.prems(1) c2 r] show ?thesis .
    qed
  qed
qed

lemma matchFunction_SomeE:
  assumes "matchFunction mt ctx m = Inr (Some f, m')"
  obtains token m1 m2 m3 nx m4 where
    "peek 1 m = Inr (token, m1)" and "Functions ctx (butlast (Value token)) = Some f"
    and "chomp m1 = Inr m2" and "matchParams mt (offset m) (Params f) m2 = Inr (True, m3)"
    and "peek 1 m3 = Inr (nx, m4)" and "Type nx = RightParenthesisToken"
    and "chomp m4 = Inr m'"
proof -
  obtain token m1 where p: "peek 1 m = Inr (token, m1)"
    using assms by (auto simp: matchFunction_def Let_def split: sum.splits)
  note a1 = assms [unfolded matchFunction_def Let_def p sum.case prod.case]
  from a1 have v: "Value token \<noteq> []" by (auto split: if_splits)
  note a2 = a1 [unfolded if_not_P [OF v]]
  from a2 obtain fn where l: "Functions ctx (butlast (Value token)) = Some fn"
    by (auto split: option.splits)
  note a3 = a2 [unfolded l option.case]
  from a3 obtain m2 where c: "chomp m1 = Inr m2" by (auto split: sum.splits)
  note a4 = a3 [unfolded c sum.case]
  from a4 obtain ok m3 where mp: "matchParams mt (offset m) (Params fn) m2 = Inr (ok, m3)"
    by (cases "matchParams mt (offset m) (Params fn) m2") auto
  note a5 = a4 [unfolded mp sum.case prod.case]
  from a5 have ok: ok by (auto split: if_splits)
  from a5 ok obtain nx m4 where p2: "peek 1 m3 = Inr (nx, m4)"
    by (cases "peek 1 m3") auto
  from a5 ok p2 have ty: "Type nx = RightParenthesisToken" and f: "fn = f"
    and c2: "chomp m4 = Inr m'"
    by (auto split: if_splits sum.splits)
  from l f have l': "Functions ctx (butlast (Value token)) = Some f" by simp
  from mp ok f have mp': "matchParams mt (offset m) (Params f) m2 = Inr (True, m3)" by simp
  show thesis by (rule that [OF p l' c mp' p2 ty c2])
qed

lemma matchFunction_consistent:
  assumes "steady mt" and "consistent m" and "matchFunction mt ctx m = Inr (Some f, m')"
  shows "consistent m'"
  using assms(3)
proof (rule matchFunction_SomeE)
  fix token m1 m2 m3 nx m4
  assume p: "peek 1 m = Inr (token, m1)" and c: "chomp m1 = Inr m2"
    and mp: "matchParams mt (offset m) (Params f) m2 = Inr (True, m3)"
    and p2: "peek 1 m3 = Inr (nx, m4)" and c2: "chomp m4 = Inr m'"
  have "consistent m1" using assms(2) p by (rule peek_consistent)
  then have "consistent m2" using c by (rule chomp_consistent)
  then have "consistent m3" using mp by (rule matchParams_consistent [OF assms(1)])
  then have "consistent m4" using p2 by (rule peek_consistent)
  then show "consistent m'" using c2 by (rule chomp_consistent)
qed

lemma matchBasicType_consistent:
  assumes "steady mt" and "consistent m" and "matchBasicType mt ctx name m = Inr (True, m')"
  shows "consistent m'"
proof -
  from assms(3) obtain first m1 where p: "peek 1 m = Inr (first, m1)"
    by (auto simp: matchBasicType_def split: sum.splits)
  then have c1: "consistent m1" by (rule peek_consistent [OF assms(2)])
  show ?thesis
  proof (cases "Type first = FunctionToken")
    case True
    with assms(3) p obtain f where "matchFunction mt ctx m1 = Inr (Some f, m')"
      by (auto simp: matchBasicType_def split: sum.splits prod.splits option.splits)
    then show ?thesis by (rule matchFunction_consistent [OF assms(1) c1])
  next
    case False
    from assms(3)
    have "(\<exists>ok. expectNext ok m1 = Inr (True, m')) \<or> mt ratioTerm m1 = Inr (True, m')"
      unfolding matchBasicType_def p sum.case prod.case if_not_P [OF False]
      by (elim if_eqE) (blast | simp)+
    then show ?thesis
      using expectNext_consistent [OF c1] steadyD [OF assms(1) c1] by blast
  qed
qed

lemma matchPropertyType_consistent:
  "steady mt \<Longrightarrow> consistent m \<Longrightarrow> matchPropertyType mt ctx t m = Inr (b, m') \<Longrightarrow> consistent m'"
  by (auto simp: matchPropertyType_def Let_def split: option.splits sum.splits prod.splits if_splits
      dest: steadyD)

lemma matchNonTerminal_consistent:
  "steady mt \<Longrightarrow> consistent m \<Longrightarrow> matchNonTerminal mt ctx t m = Inr (b, m') \<Longrightarrow> consistent m'"
  by (auto simp: matchNonTerminal_def Let_def split: option.splits sum.splits prod.splits if_splits
      dest: steadyD)

lemma matchOperands_consistent:
  "steady mt \<Longrightarrow> consistent m \<Longrightarrow> matchOperands mt ts m = Inr (b, m') \<Longrightarrow> consistent m'"
proof (induction ts arbitrary: m)
  case Nil
  then show ?case by simp
next
  case (Cons t ts)
  then show ?case
    by (auto split: sum.splits prod.splits if_splits dest: steadyD)
qed

lemma matchSeq_consistent:
  "steady mt \<Longrightarrow> consistent m \<Longrightarrow> matchSeq mt name ts m = Inr (b, m') \<Longrightarrow> consistent m'"
  by (auto simp: matchSeq_def Let_def split: sum.splits prod.splits if_splits
      dest: matchOperands_consistent)

lemma scanPending_consistent:
  "steady mt \<Longrightarrow> consistent m \<Longrightarrow> scanPending mt skipped ts m = Inr (r, m') \<Longrightarrow> consistent m'"
proof (induction ts arbitrary: m skipped)
  case Nil
  then show ?case by simp
next
  case (Cons t ts)
  then show ?case
    by (auto split: sum.splits prod.splits if_splits dest: steadyD)
qed

lemma allOfLoop_consistent:
  "steady mt \<Longrightarrow> consistent m \<Longrightarrow> allOfLoop mt pending m = Inr (b, m') \<Longrightarrow> consistent m'"
proof (induction mt pending m rule: allOfLoop.induct)
  case (1 mt pending m)
  note eq = "1.prems"(3) [unfolded allOfLoop.simps [of mt pending m]]
  show ?case
  proof (cases "length pending \<noteq> 0")
    case False
    with eq "1.prems"(2) show ?thesis by simp
  next
    case True
    with eq obtain nx m1 where p: "peek 1 m = Inr (nx, m1)"
      by (auto split: sum.splits)
    then have c1: "consistent m1" by (rule peek_consistent [OF "1.prems"(2)])
    show ?thesis
    proof (cases "Type nx = ErrorToken")
      case True
      with \<open>length pending \<noteq> 0\<close> p eq c1 show ?thesis
        by auto
    next
      case False
      with \<open>length pending \<noteq> 0\<close> p eq obtain r m2 where
        s: "scanPending mt [] pending m1 = Inr (r, m2)"
        by (auto split: sum.splits)
      then have c2: "consistent m2" by (rule scanPending_consistent [OF "1.prems"(1) c1])
      show ?thesis
      proof (cases r)
        case None
        with \<open>length pending \<noteq> 0\<close> p False s eq c2 show ?thesis
          by auto
      next
        case (Some pending')
        with \<open>length pending \<noteq> 0\<close> p False s eq
        have r: "allOfLoop mt pending' m2 = Inr (b, m')"
          by auto
        show ?thesis
          using "1.IH" [OF \<open>length pending \<noteq> 0\<close> p refl False s refl Some "1.prems"(1) c2 r] .
      qed
    qed
  qed
qed

lemma matchOneOf_consistent:
  "steady mt \<Longrightarrow> consistent m \<Longrightarrow> matchOneOf mt ts m = Inr (b, m') \<Longrightarrow> consistent m'"
proof (induction ts arbitrary: m)
  case Nil
  then show ?case by simp
next
  case (Cons t ts)
  then show ?case
    by (auto split: sum.splits prod.splits if_splits dest: steadyD)
qed

lemma whileMatch_consistent:
  "\<forall>m b m'. consistent m \<and> cond m = Inr (b, m') \<longrightarrow> consistent m' \<Longrightarrow>
     consistent m \<Longrightarrow> whileMatch k cond m = Inr (b, m') \<Longrightarrow> consistent m'"
proof (induction k arbitrary: m)
  case 0
  then show ?case by simp
next
  case (Suc k)
  from Suc.prems(3) obtain b1 m1 where c: "cond m = Inr (b1, m1)"
    by (auto split: sum.splits)
  with Suc.prems(1,2) have c1: "consistent m1" by blast
  show ?case
  proof (cases b1)
    case True
    with c Suc.prems(3) have "whileMatch k cond m1 = Inr (b, m')" by simp
    with Suc.IH Suc.prems(1) c1 show ?thesis by blast
  next
    case False
    with c Suc.prems(3) c1 show ?thesis by simp
  qed
qed

lemma matchAnyOf_consistent:
  assumes "steady mt" and "consistent m" and "matchAnyOf k mt ts m = Inr (b, m')"
  shows "consistent m'"
proof -
  from assms(3) obtain b1 m1 where f: "matchOneOf mt ts m = Inr (b1, m1)"
    by (auto simp: matchAnyOf_def split: sum.splits)
  then have c1: "consistent m1" by (rule matchOneOf_consistent [OF assms(1,2)])
  have w: "\<forall>m b m'. consistent m \<and> matchOneOf mt ts m = Inr (b, m') \<longrightarrow> consistent m'"
    using matchOneOf_consistent [OF assms(1)] by blast
  show ?thesis
  proof (cases b1)
    case True
    with f assms(3) have "whileMatch k (matchOneOf mt ts) m1 = Inr (b, m')"
      by (simp add: matchAnyOf_def)
    then show ?thesis by (rule whileMatch_consistent [OF w c1])
  next
    case False
    with f assms(3) c1 show ?thesis by (simp add: matchAnyOf_def)
  qed
qed

lemma matchGroup_consistent:
  "steady mt \<Longrightarrow> consistent m \<Longrightarrow> matchGroup mt name t m = Inr (b, m') \<Longrightarrow> consistent m'"
  by (auto simp: matchGroup_def Let_def split: sum.splits prod.splits if_splits
      dest: steadyD)

lemma matchZeroOrMore_consistent:
  assumes "steady mt" and "consistent m" and "matchZeroOrMore k mt t m = Inr (b, m')"
  shows "consistent m'"
proof -
  have "\<forall>m b m'. consistent m \<and> mt t m = Inr (b, m') \<longrightarrow> consistent m'"
    using steadyD [OF assms(1)] by blast
  then show ?thesis
    using assms(2,3) unfolding matchZeroOrMore_def by (rule whileMatch_consistent)
qed

lemma matchOneOrMore_consistent:
  assumes "steady mt" and "consistent m" and "matchOneOrMore k mt t m = Inr (b, m')"
  shows "consistent m'"
proof -
  from assms(3) obtain b1 m1 where f: "mt t m = Inr (b1, m1)"
    by (auto simp: matchOneOrMore_def split: sum.splits)
  then have c1: "consistent m1" by (rule steadyD [OF assms(1,2)])
  have w: "\<forall>m b m'. consistent m \<and> mt t m = Inr (b, m') \<longrightarrow> consistent m'"
    using steadyD [OF assms(1)] by blast
  show ?thesis
  proof (cases b1)
    case True
    with f assms(3) have "whileMatch k (mt t) m1 = Inr (b, m')"
      by (simp add: matchOneOrMore_def)
    then show ?thesis by (rule whileMatch_consistent [OF w c1])
  next
    case False
    with f assms(3) c1 show ?thesis by (simp add: matchOneOrMore_def)
  qed
qed

lemma matchZeroOrOne_consistent:
  "steady mt \<Longrightarrow> consistent m \<Longrightarrow> matchZeroOrOne mt t m = Inr (b, m') \<Longrightarrow> consistent m'"
  by (auto simp: matchZeroOrOne_def split: sum.splits prod.splits dest: steadyD)


lemma repeatLoop_consistent:
  "steady mt \<Longrightarrow> consistent m \<Longrightarrow> repeatLoop mt mx commas t n m = Inr (r, m')
     \<Longrightarrow> consistent m'"
proof (induction mt mx commas t n m rule: repeatLoop.induct)
  case (1 mt mx commas t n m)
  note eq = "1.prems"(3) [unfolded repeatLoop.simps [of mt mx commas t n m]]
  show ?case
  proof (cases "int n < mx")
    case False
    with eq "1.prems"(2) show ?thesis by simp
  next
    case True
    with eq obtain nx m1 where p: "peek 1 m = Inr (nx, m1)"
      by (auto split: sum.splits)
    then have c1: "consistent m1" by (rule peek_consistent [OF "1.prems"(2)])
    show ?thesis
    proof (cases "Type nx = ErrorToken")
      case True
      with \<open>int n < mx\<close> p eq c1 show ?thesis by auto
    next
      case False
      define sep where "sep =
        (if n > 0 \<and> commas then
           (if Type nx \<noteq> CommaToken then Inr (False, m1)
            else (case chomp m1 of Inl e \<Rightarrow> Inl e | Inr m2 \<Rightarrow> Inr (True, m2)))
         else Inr (True, m1))"
      from \<open>int n < mx\<close> p False eq obtain go m2 where s: "sep = Inr (go, m2)"
        unfolding sep_def by (auto split: sum.splits)
      then have c2: "consistent m2"
        using c1 unfolding sep_def by (auto split: if_splits sum.splits dest: chomp_consistent)
      show ?thesis
      proof (cases go)
        case False
        with \<open>int n < mx\<close> p \<open>Type nx \<noteq> ErrorToken\<close> s eq c2 show ?thesis
          unfolding sep_def by auto
      next
        case True
        with \<open>int n < mx\<close> p \<open>Type nx \<noteq> ErrorToken\<close> s eq obtain b3 m3 where
          o: "mt t m2 = Inr (b3, m3)"
          unfolding sep_def by (auto split: sum.splits)
        then have c3: "consistent m3" by (rule steadyD [OF "1.prems"(1) c2])
        show ?thesis
        proof (cases b3)
          case False
          with \<open>int n < mx\<close> p \<open>Type nx \<noteq> ErrorToken\<close> s True o eq
          have "m' = m3" unfolding sep_def by auto
          with c3 show ?thesis by simp
        next
          case b3: True
          with \<open>int n < mx\<close> p \<open>Type nx \<noteq> ErrorToken\<close> s True o eq
          have r: "repeatLoop mt mx commas t (n + 1) m3 = Inr (r, m')"
            unfolding sep_def by auto
          show ?thesis
            using "1.IH" [OF \<open>int n < mx\<close> p refl \<open>Type nx \<noteq> ErrorToken\<close>
                s [unfolded sep_def] refl _ o refl _ "1.prems"(1) c3 r] True b3
            by simp
        qed
      qed
    qed
  qed
qed

lemma matchRepeat_consistent:
  "steady mt \<Longrightarrow> consistent m \<Longrightarrow> matchRepeat mt mn mx commas t m = Inr (b, m')
     \<Longrightarrow> consistent m'"
  by (auto simp: matchRepeat_def split: sum.splits prod.splits option.splits
      dest: repeatLoop_consistent)

lemma dispatch_consistent:
  assumes "steady mt" and "consistent m" and "dispatch k mt ctx t m = Inr (True, m')"
  shows "consistent m'"
  using assms(3) unfolding dispatch_def
  by (cases t)
    (auto simp: matchKeyword_def matchLiteral_def matchAllOf_def Let_def
      dest: expectNext_consistent [OF assms(2)] matchBasicType_consistent [OF assms(1,2)]
        matchPropertyType_consistent [OF assms(1,2)] matchNonTerminal_consistent [OF assms(1,2)]
        matchSeq_consistent [OF assms(1,2)] allOfLoop_consistent [OF assms(1,2)]
        matchAnyOf_consistent [OF assms(1,2)] matchOneOf_consistent [OF assms(1,2)]
        matchGroup_consistent [OF assms(1,2)] matchZeroOrMore_consistent [OF assms(1,2)]
        matchOneOrMore_consistent [OF assms(1,2)] matchZeroOrOne_consistent [OF assms(1,2)]
        matchRepeat_consistent [OF assms(1,2)])

lemma consistent_rollback:
  assumes "consistent m" and "grows m m1"
  shows "consistent (m1\<lparr>offset := offset m, result := take (length (result m)) (result m1),
                        captures := cs\<rparr>)"
  using assms by (auto simp: consistent_def grows_def)

lemma match_steady: "steady (match n ctx)"
proof (induction n)
  case 0
  show ?case by (simp add: steady_def match.simps)
next
  case (Suc n)
  show ?case
    unfolding steady_def
  proof (intro allI impI, elim conjE)
    fix t m b m'
    assume c: "consistent m" and "match (Suc n) ctx t m = Inr (b, m')"
    from this(2) show "consistent m'"
    proof (cases rule: match_Suc_cases)
      case matched
      from dispatch_consistent [OF Suc.IH c matched(2)] show ?thesis .
    next
      case (failed m1)
      from dispatch_grows [OF match_growing failed(2)] show ?thesis
        unfolding failed(3) by (rule consistent_rollback [OF c])
    qed
  qed
qed

lemma match_conserves:
  assumes "consistent m" and "match n ctx t m = Inr (b, m')"
  shows "consistent m' \<and> result m' @ upcoming m' = result m @ upcoming m"
proof -
  from match_steady assms have c: "consistent m'" by (rule steadyD)
  from match_growing assms(2) have "grows m m'" by (rule growingD)
  then have "allTokens m' = allTokens m" by (simp add: grows_def)
  with c assms(1) show ?thesis by (simp add: consistent_tokens)
qed


section \<open>The loop of a repetition\<close>


lemma repeatLoop_limit:
  "\<not> int n < mx \<Longrightarrow> repeatLoop mt mx commas operand n m = Inr (Some n, m)"
  by (simp add: repeatLoop.simps)

lemma repeatLoop_exhausted:
  "int n < mx \<Longrightarrow> peek 1 m = Inr (next, m1) \<Longrightarrow> Type next = ErrorToken \<Longrightarrow>
     repeatLoop mt mx commas operand n m = Inr (Some n, m1)"
  by (simp add: repeatLoop.simps)

lemma repeatLoop_no_comma:
  "int n < mx \<Longrightarrow> peek 1 m = Inr (next, m1) \<Longrightarrow> Type next \<noteq> ErrorToken \<Longrightarrow>
     0 < n \<Longrightarrow> commas \<Longrightarrow> Type next \<noteq> CommaToken \<Longrightarrow>
     repeatLoop mt mx commas operand n m = Inr (None, m1)"
  by (simp add: repeatLoop.simps)

lemma repeatLoop_comma:
  "int n < mx \<Longrightarrow> peek 1 m = Inr (next, m1) \<Longrightarrow> 0 < n \<Longrightarrow> commas \<Longrightarrow>
     Type next = CommaToken \<Longrightarrow> chomp m1 = Inr m2 \<Longrightarrow>
     repeatLoop mt mx commas operand n m =
       (case mt operand m2 of
          Inl e \<Rightarrow> Inl e
        | Inr (matched, m3) \<Rightarrow>
            if \<not> matched then Inr (Some n, m3)
            else repeatLoop mt mx commas operand (n + 1) m3)"
  by (subst repeatLoop.simps) simp

lemma repeatLoop_plain:
  "int n < mx \<Longrightarrow> peek 1 m = Inr (next, m1) \<Longrightarrow> Type next \<noteq> ErrorToken \<Longrightarrow>
     \<not> (0 < n \<and> commas) \<Longrightarrow>
     repeatLoop mt mx commas operand n m =
       (case mt operand m1 of
          Inl e \<Rightarrow> Inl e
        | Inr (matched, m3) \<Rightarrow>
            if \<not> matched then Inr (Some n, m3)
            else repeatLoop mt mx commas operand (n + 1) m3)"
  by (subst repeatLoop.simps) auto

lemma repeatLoop_count:
  "repeatLoop mt mx commas operand n m = Inr (r, m') \<Longrightarrow>
     (case r of Some k \<Rightarrow> n \<le> k \<and> (int n \<le> mx \<longrightarrow> int k \<le> mx) | None \<Rightarrow> commas)"
proof (induction mt mx commas operand n m rule: repeatLoop.induct)
  case (1 mt mx commas t n m)
  note eq = "1.prems"(1) [unfolded repeatLoop.simps [of mt mx commas t n m]]
  show ?case
  proof (cases "int n < mx")
    case False
    with eq show ?thesis by auto
  next
    case True
    with eq obtain nx m1 where p: "peek 1 m = Inr (nx, m1)"
      by (auto split: sum.splits)
    show ?thesis
    proof (cases "Type nx = ErrorToken")
      case True
      with \<open>int n < mx\<close> p eq show ?thesis by auto
    next
      case False
      define sep where "sep =
        (if n > 0 \<and> commas then
           (if Type nx \<noteq> CommaToken then Inr (False, m1)
            else (case chomp m1 of Inl e \<Rightarrow> Inl e | Inr m2 \<Rightarrow> Inr (True, m2)))
         else Inr (True, m1))"
      from \<open>int n < mx\<close> p False eq obtain go m2 where s: "sep = Inr (go, m2)"
        unfolding sep_def by (auto split: sum.splits)
      show ?thesis
      proof (cases go)
        case False
        with s have "commas" unfolding sep_def by (auto split: if_splits sum.splits)
        with False \<open>int n < mx\<close> p \<open>Type nx \<noteq> ErrorToken\<close> s eq show ?thesis
          unfolding sep_def by auto
      next
        case True
        with \<open>int n < mx\<close> p \<open>Type nx \<noteq> ErrorToken\<close> s eq obtain b3 m3 where
          o: "mt t m2 = Inr (b3, m3)"
          unfolding sep_def by (auto split: sum.splits)
        show ?thesis
        proof (cases b3)
          case False
          with \<open>int n < mx\<close> p \<open>Type nx \<noteq> ErrorToken\<close> s True o eq
          show ?thesis unfolding sep_def by auto
        next
          case b3: True
          with \<open>int n < mx\<close> p \<open>Type nx \<noteq> ErrorToken\<close> s True o eq
          have r: "repeatLoop mt mx commas t (n + 1) m3 = Inr (r, m')"
            unfolding sep_def by auto
          have "case r of Some k \<Rightarrow> n + 1 \<le> k \<and> (int (n + 1) \<le> mx \<longrightarrow> int k \<le> mx)
              | None \<Rightarrow> commas"
            using "1.IH" [OF \<open>int n < mx\<close> p refl \<open>Type nx \<noteq> ErrorToken\<close>
                s [unfolded sep_def] refl _ o refl _ r] True b3
            by simp
          with \<open>int n < mx\<close> show ?thesis by (auto split: option.splits)
        qed
      qed
    qed
  qed
qed


section \<open>Matching a term that tests a single token\<close>

lemma stream_Next_Error:
  "lexer_Next l = (tok, l') \<Longrightarrow> Type tok = ErrorToken \<Longrightarrow> stream l = [] \<and> stream l' = []"
  by (cases l) (auto simp: lexer_Next_def stream_def split: if_splits)

lemma peek_upcoming:
  "offset m \<le> length (buffer m) \<Longrightarrow> upcoming m = tok # ts \<Longrightarrow>
     \<exists>m1. peek 1 m = Inr (tok, m1) \<and> offset m1 = offset m \<and> result m1 = result m
       \<and> captures m1 = captures m \<and> upcoming m1 = tok # ts
       \<and> offset m1 < length (buffer m1) \<and> buffer m1 ! offset m1 = tok"
proof (induction "1::nat" m rule: peek.induct)
  case (1 m)
  show ?case
  proof (cases "offset m < length (buffer m)")
    case True
    then have "drop (offset m) (buffer m) = buffer m ! offset m # drop (Suc (offset m)) (buffer m)"
      by (simp add: Cons_nth_drop_Suc)
    with "1.prems" have "buffer m ! offset m = tok"
      by (simp add: upcoming_def)
    moreover from True have "peek 1 m = Inr (buffer m ! offset m, m)"
      by (subst peek.simps) auto
    ultimately show ?thesis using True "1.prems"(2) by simp
  next
    case False
    with "1.prems" have e: "offset m = length (buffer m)" by simp
    with "1.prems" have s: "stream (lexer m) = tok # ts" by (simp add: upcoming_def)
    obtain t l' where nx: "lexer_Next (lexer m) = (t, l')"
      by (cases "lexer_Next (lexer m)")
    from stream_Next_Error [OF nx] s have ne: "Type t \<noteq> ErrorToken" by auto
    have c1: "\<not> length (buffer m) < offset m" and c2: "length (buffer m) - offset m < 1"
      using e by simp_all
    show ?thesis
    proof (cases "Type t \<noteq> WhitespaceToken")
      case True
      with stream_Next [OF nx] s ne have "t = tok" and "stream l' = ts" by auto
      then have "upcoming (m\<lparr>buffer := buffer m @ [t], lexer := l'\<rparr>) = tok # ts"
        using e by (simp add: upcoming_def)
      from "1.hyps"(1) [OF c1 c2 nx [symmetric] ne True _ this] e
      have "\<exists>m1. peek 1 (m\<lparr>buffer := buffer m @ [t], lexer := l'\<rparr>) = Inr (tok, m1)
        \<and> offset m1 = offset m \<and> result m1 = result m \<and> captures m1 = captures m
        \<and> upcoming m1 = tok # ts \<and> offset m1 < length (buffer m1)
        \<and> buffer m1 ! offset m1 = tok"
        by simp
      moreover have "peek 1 m = peek 1 (m\<lparr>buffer := buffer m @ [t], lexer := l'\<rparr>)"
        using c1 c2 nx ne True by (subst peek.simps) simp
      ultimately show ?thesis by simp
    next
      case False
      with stream_Next [OF nx] s ne have "stream l' = tok # ts" by auto
      then have "upcoming (m\<lparr>lexer := l'\<rparr>) = tok # ts"
        using e by (simp add: upcoming_def)
      from "1.hyps"(2) [OF c1 c2 nx [symmetric] ne False _ this] e
      have "\<exists>m1. peek 1 (m\<lparr>lexer := l'\<rparr>) = Inr (tok, m1)
        \<and> offset m1 = offset m \<and> result m1 = result m \<and> captures m1 = captures m
        \<and> upcoming m1 = tok # ts \<and> offset m1 < length (buffer m1)
        \<and> buffer m1 ! offset m1 = tok"
        by simp
      moreover have "peek 1 m = peek 1 (m\<lparr>lexer := l'\<rparr>)"
        using c1 c2 nx ne False by (subst peek.simps) simp
      ultimately show ?thesis by simp
    qed
  qed
qed

lemma peek_exhausted:
  "offset m \<le> length (buffer m) \<Longrightarrow> upcoming m = [] \<Longrightarrow>
     \<exists>e m1. peek 1 m = Inr (e, m1) \<and> Type e = ErrorToken \<and> offset m1 = offset m
       \<and> result m1 = result m \<and> captures m1 = captures m \<and> upcoming m1 = []"
proof (induction "1::nat" m rule: peek.induct)
  case (1 m)
  from "1.prems" have e: "offset m = length (buffer m)" and s: "stream (lexer m) = []"
    by (simp_all add: upcoming_def)
  obtain t l' where nx: "lexer_Next (lexer m) = (t, l')"
    by (cases "lexer_Next (lexer m)")
  have c1: "\<not> length (buffer m) < offset m" and c2: "length (buffer m) - offset m < 1"
    using e by simp_all
  show ?case
  proof (cases "Type t = ErrorToken")
    case True
    with stream_Next_Error [OF nx] have "upcoming (m\<lparr>lexer := l'\<rparr>) = []"
      using e by (simp add: upcoming_def)
    with c1 c2 nx True show ?thesis
      by (subst peek.simps) auto
  next
    case ne: False
    with stream_Next [OF nx] s have ws: "\<not> Type t \<noteq> WhitespaceToken" and "stream l' = []"
      by (auto split: if_splits)
    then have "upcoming (m\<lparr>lexer := l'\<rparr>) = []"
      using e by (simp add: upcoming_def)
    from "1.hyps"(2) [OF c1 c2 nx [symmetric] ne ws _ this] e
    obtain er m1 where "peek 1 (m\<lparr>lexer := l'\<rparr>) = Inr (er, m1)" and "Type er = ErrorToken"
      and "offset m1 = offset m" and "result m1 = result m" and "captures m1 = captures m"
      and "upcoming m1 = []"
      by auto
    with c1 c2 nx ne ws show ?thesis
      by (subst peek.simps) auto
  qed
qed


lemma chomp_upcoming:
  assumes "consistent m" and "upcoming m = tok # ts" and "offset m < length (buffer m)"
  shows "\<exists>m'. chomp m = Inr m' \<and> consistent m' \<and> captures m' = captures m
           \<and> upcoming m' = ts \<and> result m' = result m @ [tok] \<and> offset m' = offset m + 1"
proof -
  from assms(3)
  have d: "drop (offset m) (buffer m) = buffer m ! offset m # drop (Suc (offset m)) (buffer m)"
    by (simp add: Cons_nth_drop_Suc)
  with assms(2) have t: "buffer m ! offset m = tok"
    and u: "drop (Suc (offset m)) (buffer m) @ stream (lexer m) = ts"
    by (simp_all add: upcoming_def)
  let ?m' = "m\<lparr>result := result m @ [buffer m ! offset m], offset := offset m + 1\<rparr>"
  from assms(3) have c: "chomp m = Inr ?m'" by (auto simp: chomp_def)
  from chomp_consistent [OF assms(1) c] have "consistent ?m'" .
  with c t u show ?thesis by (simp add: upcoming_def)
qed

lemma expectNext_upcoming:
  assumes "consistent m" and "upcoming m = tok # ts"
  shows "\<exists>m'. expectNext ok m = Inr (ok tok, m') \<and> consistent m' \<and> captures m' = captures m
           \<and> upcoming m' = (if ok tok then ts else tok # ts)
           \<and> result m' = (if ok tok then result m @ [tok] else result m)
           \<and> offset m' = (if ok tok then offset m + 1 else offset m)"
proof -
  from assms have "offset m \<le> length (buffer m)" by (simp add: consistent_def)
  from peek_upcoming [OF this assms(2)] obtain m1 where p: "peek 1 m = Inr (tok, m1)"
    and f: "offset m1 = offset m" "result m1 = result m" "captures m1 = captures m"
    and u: "upcoming m1 = tok # ts" and l: "offset m1 < length (buffer m1)"
    by blast
  from peek_consistent [OF assms(1) p] have c1: "consistent m1" .
  show ?thesis
  proof (cases "ok tok")
    case False
    with p c1 f u show ?thesis by (simp add: expectNext_def)
  next
    case True
    from chomp_upcoming [OF c1 u l] obtain m' where "chomp m1 = Inr m'" and "consistent m'"
      and "captures m' = captures m1" and "upcoming m' = ts" and "result m' = result m1 @ [tok]"
      and "offset m' = offset m1 + 1"
      by blast
    with True p f show ?thesis by (simp add: expectNext_def)
  qed
qed

lemma expectNext_exhausted:
  assumes "consistent m" and "upcoming m = []" and "\<forall>e. Type e = ErrorToken \<longrightarrow> \<not> ok e"
  shows "\<exists>m'. expectNext ok m = Inr (False, m') \<and> consistent m' \<and> captures m' = captures m
           \<and> upcoming m' = [] \<and> result m' = result m \<and> offset m' = offset m"
proof -
  from assms have "offset m \<le> length (buffer m)" by (simp add: consistent_def)
  from peek_exhausted [OF this assms(2)] obtain e m1 where p: "peek 1 m = Inr (e, m1)"
    and e: "Type e = ErrorToken"
    and f: "offset m1 = offset m" "result m1 = result m" "captures m1 = captures m"
      "upcoming m1 = []"
    by blast
  from peek_consistent [OF assms(1) p] have c1: "consistent m1" .
  from e assms(3) have "\<not> ok e" by blast
  with p c1 f show ?thesis by (simp add: expectNext_def)
qed

lemma match_of_dispatch:
  "dispatch n (match n ctx) ctx t m = Inr (b, m1) \<Longrightarrow>
     match (Suc n) ctx t m =
       Inr (b, if b then m1
               else m1\<lparr>offset := offset m, result := take (length (result m)) (result m1),
                       captures := take (length (captures m)) (captures m1)\<rparr>)"
  by (simp add: match.simps Let_def)

lemma basicType_test:
  assumes "singleToken (BasicType name rng)" and "peek 1 m = Inr (tok, m1)"
    and "Type tok \<noteq> FunctionToken"
  shows "matchBasicType mt ctx name m = expectNext (accepts (BasicType name rng)) m1"
proof -
  from assms(1) have "name = ''custom-ident'' \<or> name = ''dashed-ident'' \<or> name = ''string''
      \<or> name = ''url'' \<or> name = ''color'' \<or> name = ''integer'' \<or> name = ''number''
      \<or> name = ''percentage'' \<or> name = ''dimension'' \<or> name = ''length''
      \<or> name = ''angle'' \<or> name = ''time'' \<or> name = ''frequency''
      \<or> name = ''resolution''"
    by (simp only: singleToken.simps)
  then show ?thesis
    unfolding matchBasicType_def assms(2) sum.case prod.case if_not_P [OF assms(3)]
    apply (elim disjE)
    apply (simp, rule arg_cong [where f = "\<lambda>f. expectNext f m1"], rule ext, simp)+
    done
qed


lemma dispatch_singleToken:
  assumes "singleToken t" and "consistent m" and "upcoming m = tok # ts"
    and "Type tok \<noteq> FunctionToken"
  shows "\<exists>m0. dispatch n mt ctx t m = expectNext (accepts t) m0 \<and> consistent m0
           \<and> upcoming m0 = tok # ts \<and> offset m0 = offset m \<and> result m0 = result m
           \<and> captures m0 = captures m"
proof (cases t)
  case (Keyword k)
  have "(\<lambda>next. \<not> (Type next \<noteq> IdentToken \<or> Value next \<noteq> k)) = accepts (Keyword k)"
    by (rule ext) simp
  then have "dispatch n mt ctx t m = expectNext (accepts t) m"
    by (simp add: Keyword dispatch_def matchKeyword_def)
  with assms(2,3) show ?thesis by blast
next
  case (Literal c)
  have "(\<lambda>next. \<not> (Type next \<noteq> literalKind c \<or> Value next \<noteq> c)) = accepts (Literal c)"
    by (rule ext) simp
  then have "dispatch n mt ctx t m = expectNext (accepts t) m"
    by (simp add: Literal dispatch_def matchLiteral_def Let_def)
  with assms(2,3) show ?thesis by blast
next
  case (BasicType name rng)
  from assms(2) have "offset m \<le> length (buffer m)" by (simp add: consistent_def)
  from peek_upcoming [OF this assms(3)] obtain m1 where p: "peek 1 m = Inr (tok, m1)"
    and f: "offset m1 = offset m" "result m1 = result m" "captures m1 = captures m"
      "upcoming m1 = tok # ts"
    by blast
  from peek_consistent [OF assms(2) p] have c1: "consistent m1" .
  from basicType_test [OF assms(1) [unfolded BasicType] p assms(4)]
  have "dispatch n mt ctx t m = expectNext (accepts t) m1"
    by (simp add: BasicType dispatch_def)
  with c1 f show ?thesis by blast
qed (use assms(1) in simp_all)

lemma rollback_identity:
  "offset m1 = offset m \<Longrightarrow> result m1 = result m \<Longrightarrow> captures m1 = captures m \<Longrightarrow>
     m1\<lparr>offset := offset m, result := take (length (result m)) (result m1),
        captures := take (length (captures m)) (captures m1)\<rparr> = m1"
  by simp

lemma match_singleToken:
  assumes "singleToken t" and "consistent m" and "upcoming m = tok # ts"
    and "Type tok \<noteq> FunctionToken"
  shows "\<exists>m'. match (Suc n) ctx t m = Inr (accepts t tok, m') \<and> consistent m'
           \<and> captures m' = captures m
           \<and> upcoming m' = (if accepts t tok then ts else tok # ts)
           \<and> result m' = (if accepts t tok then result m @ [tok] else result m)"
proof -
  from dispatch_singleToken [OF assms] obtain m0 where
    d: "dispatch n (match n ctx) ctx t m = expectNext (accepts t) m0" and c0: "consistent m0"
    and u0: "upcoming m0 = tok # ts"
    and f0: "offset m0 = offset m" "result m0 = result m" "captures m0 = captures m"
    by blast
  from expectNext_upcoming [OF c0 u0, of "accepts t"] obtain m1 where
    e: "expectNext (accepts t) m0 = Inr (accepts t tok, m1)" and c1: "consistent m1"
    and f1: "captures m1 = captures m0"
      "upcoming m1 = (if accepts t tok then ts else tok # ts)"
      "result m1 = (if accepts t tok then result m0 @ [tok] else result m0)"
      "offset m1 = (if accepts t tok then offset m0 + 1 else offset m0)"
    by blast
  note mm = match_of_dispatch [OF d [unfolded e]]
  show ?thesis
  proof (cases "accepts t tok")
    case True
    with mm c1 f1 f0 show ?thesis by simp
  next
    case False
    let ?m' = "m1\<lparr>offset := offset m, result := take (length (result m)) (result m1),
                  captures := take (length (captures m)) (captures m1)\<rparr>"
    have ri: "?m' = m1" by (rule rollback_identity) (use False f1 f0 in simp_all)
    from mm False have "match (Suc n) ctx t m = Inr (False, ?m')"
      by simp
    then have "match (Suc n) ctx t m = Inr (False, m1)" unfolding ri .
    with False c1 f1 f0 show ?thesis by simp
  qed
qed

lemma match_singleToken_exhausted:
  assumes "singleToken t" and "consistent m" and "upcoming m = []"
  shows "\<exists>m'. match (Suc n) ctx t m = Inr (False, m') \<and> consistent m'
           \<and> captures m' = captures m \<and> upcoming m' = [] \<and> result m' = result m"
proof -
  from assms(2) have "offset m \<le> length (buffer m)" by (simp add: consistent_def)
  from peek_exhausted [OF this assms(3)] obtain e m1 where p: "peek 1 m = Inr (e, m1)"
    and e: "Type e = ErrorToken"
    and f: "offset m1 = offset m" "result m1 = result m" "captures m1 = captures m"
      "upcoming m1 = []"
    by blast
  from peek_consistent [OF assms(2) p] have c1: "consistent m1" .
  have na: "\<forall>e. Type e = ErrorToken \<longrightarrow> \<not> accepts t e"
    using assms(1) by (cases t) (auto simp: literalKind_def)
  have "\<exists>m0. dispatch n (match n ctx) ctx t m = expectNext (accepts t) m0 \<and> consistent m0
           \<and> upcoming m0 = [] \<and> offset m0 = offset m \<and> result m0 = result m
           \<and> captures m0 = captures m"
  proof (cases t)
    case (Keyword k)
    have "(\<lambda>next. \<not> (Type next \<noteq> IdentToken \<or> Value next \<noteq> k)) = accepts (Keyword k)"
      by (rule ext) simp
    then have "dispatch n (match n ctx) ctx t m = expectNext (accepts t) m"
      by (simp add: Keyword dispatch_def matchKeyword_def)
    with assms(2,3) show ?thesis by blast
  next
    case (Literal c)
    have "(\<lambda>next. \<not> (Type next \<noteq> literalKind c \<or> Value next \<noteq> c)) = accepts (Literal c)"
      by (rule ext) simp
    then have "dispatch n (match n ctx) ctx t m = expectNext (accepts t) m"
      by (simp add: Literal dispatch_def matchLiteral_def Let_def)
    with assms(2,3) show ?thesis by blast
  next
    case (BasicType name rng)
    from e have "Type e \<noteq> FunctionToken" by simp
    from basicType_test [OF assms(1) [unfolded BasicType] p this]
    have "dispatch n (match n ctx) ctx t m = expectNext (accepts t) m1"
      by (simp add: BasicType dispatch_def)
    with c1 f show ?thesis by blast
  qed (use assms(1) in simp_all)
  then obtain m0 where
    d: "dispatch n (match n ctx) ctx t m = expectNext (accepts t) m0" and c0: "consistent m0"
    and u0: "upcoming m0 = []"
    and f0: "offset m0 = offset m" "result m0 = result m" "captures m0 = captures m"
    by blast
  from expectNext_exhausted [OF c0 u0 na] obtain m2 where
    x: "expectNext (accepts t) m0 = Inr (False, m2)" and c2: "consistent m2"
    and f2: "captures m2 = captures m0" "upcoming m2 = []" "result m2 = result m0"
      "offset m2 = offset m0"
    by blast
  note mm = match_of_dispatch [OF d [unfolded x]]
  let ?m' = "m2\<lparr>offset := offset m, result := take (length (result m)) (result m2),
                captures := take (length (captures m)) (captures m2)\<rparr>"
  have ri: "?m' = m2" by (rule rollback_identity) (use f2 f0 in simp_all)
  from mm have "match (Suc n) ctx t m = Inr (False, ?m')"
    by simp
  then have "match (Suc n) ctx t m = Inr (False, m2)" unfolding ri .
  with c2 f2 f0 show ?thesis by simp
qed


lemma newMatcher_consistent: "consistent (newMatcher r)"
  by (simp add: consistent_def newMatcher_def)

lemma newMatcher_upcoming: "upcoming (newMatcher r) = stream r"
  by (simp add: upcoming_def newMatcher_def)

lemma match_consumed:
  assumes "match fuel ctx t (newMatcher r) = Inr (b, m1)"
  shows "result m1 = take (offset m1) (stream r) \<and> upcoming m1 = drop (offset m1) (stream r)"
proof -
  have "result (newMatcher r) = []" by (simp add: newMatcher_def)
  with match_conserves [OF newMatcher_consistent assms]
  have c: "consistent m1" and e: "result m1 @ upcoming m1 = stream r"
    by (simp_all add: newMatcher_upcoming)
  from c have "length (result m1) = offset m1" by (auto simp: consistent_def)
  with e show ?thesis by (metis append_eq_conv_conj)
qed


section \<open>Tokens that single-token terms accept\<close>

lemma accepts_Type:
  "singleToken t \<Longrightarrow> accepts t tok \<Longrightarrow> Type tok \<noteq> FunctionToken \<and> Type tok \<noteq> ErrorToken"
  by (cases t) (auto simp: literalKind_def split: if_splits)

lemma propertyType_never_matches:
  "match n ctx (PropertyType p) m \<noteq> Inr (True, m')"
proof (cases n)
  case 0
  then show ?thesis by (simp add: match.simps)
next
  case (Suc k)
  have "dispatch k (match k ctx) ctx (PropertyType p) m \<noteq> Inr (True, m')" for m'
    by (auto simp: dispatch_def matchPropertyType_def Let_def
        split: option.splits sum.splits prod.splits)
  then show ?thesis
    unfolding Suc by (auto simp: match.simps Let_def split: sum.splits prod.splits if_splits)
qed

section \<open>Example inputs, unfolded\<close>

lemmas example_defs = kwInset_def len2px_def num3_def space_def pct5_def


section \<open>Repetition of a single-token operand\<close>

lemma repeatLoop_values:
  assumes "singleToken operand" and "\<forall>v\<in>set vs. accepts operand v"
    and "rest = [] \<or> (\<not> accepts operand (hd rest) \<and> Type (hd rest) \<noteq> FunctionToken)"
    and "consistent m" and "upcoming m = vs @ rest"
  shows "\<exists>m'. repeatLoop (match (Suc f) ctx) mx False operand n m
             = Inr (Some (n + min (length vs) (nat (mx - int n))), m')
           \<and> consistent m' \<and> captures m' = captures m
           \<and> upcoming m' = drop (min (length vs) (nat (mx - int n))) vs @ rest
           \<and> result m' = result m @ take (min (length vs) (nat (mx - int n))) vs"
  using assms(2,4,5)
proof (induction vs arbitrary: n m)
  case Nil
  show ?case
  proof (cases "int n < mx")
    case False
    with Nil show ?thesis by (simp add: repeatLoop_limit)
  next
    case True
    from Nil have le: "offset m \<le> length (buffer m)" by (simp add: consistent_def)
    show ?thesis
    proof (cases rest)
      case Nil
      with \<open>upcoming m = [] @ rest\<close> have "upcoming m = []" by simp
      from peek_exhausted [OF le this] obtain e m1 where p: "peek 1 m = Inr (e, m1)"
        and e: "Type e = ErrorToken" and f: "result m1 = result m" "captures m1 = captures m"
          "upcoming m1 = []"
        by blast
      from peek_consistent [OF \<open>consistent m\<close> p] have "consistent m1" .
      with repeatLoop_exhausted [OF True p e] f Nil show ?thesis by simp
    next
      case (Cons x xs)
      with \<open>upcoming m = [] @ rest\<close> have u: "upcoming m = x # xs" by simp
      from peek_upcoming [OF le u] obtain m1 where p: "peek 1 m = Inr (x, m1)"
        and f: "result m1 = result m" "captures m1 = captures m" "upcoming m1 = x # xs"
        by blast
      from peek_consistent [OF \<open>consistent m\<close> p] have c1: "consistent m1" .
      show ?thesis
      proof (cases "Type x = ErrorToken")
        case e: True
        with repeatLoop_exhausted [OF True p e] f c1 Cons show ?thesis by simp
      next
        case ne: False
        from assms(3) Cons have na: "\<not> accepts operand x" and nf: "Type x \<noteq> FunctionToken"
          by simp_all
        from match_singleToken [OF assms(1) c1 f(3) nf, of f ctx] na obtain m3 where
          m3: "match (Suc f) ctx operand m1 = Inr (False, m3)" and c3: "consistent m3"
          and f3: "captures m3 = captures m1" "upcoming m3 = x # xs" "result m3 = result m1"
          by auto
        have "repeatLoop (match (Suc f) ctx) mx False operand n m = Inr (Some n, m3)"
          by (subst repeatLoop_plain [OF True p ne]) (simp_all add: m3)
        with c3 f3 f Cons show ?thesis by simp
      qed
    qed
  qed
next
  case (Cons v vs)
  show ?case
  proof (cases "int n < mx")
    case False
    with Cons.prems show ?thesis by (simp add: repeatLoop_limit)
  next
    case True
    from Cons.prems have le: "offset m \<le> length (buffer m)" by (simp add: consistent_def)
    from Cons.prems have u: "upcoming m = v # vs @ rest" by simp
    from Cons.prems have av: "accepts operand v" by simp
    from accepts_Type [OF assms(1) av] have nf: "Type v \<noteq> FunctionToken"
      and ne: "Type v \<noteq> ErrorToken"
      by simp_all
    from peek_upcoming [OF le u] obtain m1 where p: "peek 1 m = Inr (v, m1)"
      and f: "result m1 = result m" "captures m1 = captures m" "upcoming m1 = v # vs @ rest"
      by blast
    from peek_consistent [OF \<open>consistent m\<close> p] have c1: "consistent m1" .
    from match_singleToken [OF assms(1) c1 f(3) nf, of f ctx] av obtain m3 where
      m3: "match (Suc f) ctx operand m1 = Inr (True, m3)" and c3: "consistent m3"
      and f3: "captures m3 = captures m1" "upcoming m3 = vs @ rest"
        "result m3 = result m1 @ [v]"
      by auto
    from Cons.prems have "\<forall>v\<in>set vs. accepts operand v" by simp
    from Cons.IH [OF this c3 f3(2), of "n + 1"] obtain m' where
      r: "repeatLoop (match (Suc f) ctx) mx False operand (n + 1) m3
            = Inr (Some (n + 1 + min (length vs) (nat (mx - int (n + 1)))), m')"
      and c': "consistent m'" and f': "captures m' = captures m3"
        "upcoming m' = drop (min (length vs) (nat (mx - int (n + 1)))) vs @ rest"
        "result m' = result m3 @ take (min (length vs) (nat (mx - int (n + 1)))) vs"
      by blast
    have k: "min (length (v # vs)) (nat (mx - int n))
        = Suc (min (length vs) (nat (mx - int (n + 1))))"
      using True by (simp add: min_def) linarith
    have "repeatLoop (match (Suc f) ctx) mx False operand n m
        = repeatLoop (match (Suc f) ctx) mx False operand (n + 1) m3"
      by (subst repeatLoop_plain [OF True p ne]) (simp_all add: m3)
    with r have "repeatLoop (match (Suc f) ctx) mx False operand n m
        = Inr (Some (n + min (length (v # vs)) (nat (mx - int n))), m')"
      unfolding k by simp
    with c' f' f3 f show ?thesis unfolding k by simp
  qed
qed


lemma matchRepeat_cases:
  assumes "matchRepeat mt mn mx commas operand m = Inr (b, m')"
  shows "(\<exists>k. repeatLoop mt mx commas operand 0 m = Inr (Some k, m')
            \<and> int k \<le> max 0 mx \<and> b = (mn \<le> int k))
       \<or> (commas \<and> repeatLoop mt mx commas operand 0 m = Inr (None, m') \<and> b = False)"
proof -
  from assms obtain r where r: "repeatLoop mt mx commas operand 0 m = Inr (r, m')"
    by (cases "repeatLoop mt mx commas operand 0 m")
      (auto simp: matchRepeat_def split: option.splits)
  show ?thesis
  proof (cases r)
    case None
    with repeatLoop_count [OF r] r assms show ?thesis
      by (auto simp: matchRepeat_def)
  next
    case (Some k)
    have "int k \<le> max 0 mx"
    proof (cases "0 \<le> mx")
      case True
      with repeatLoop_count [OF r] Some show ?thesis by simp
    next
      case False
      then have "repeatLoop mt mx commas operand 0 m = Inr (Some 0, m)"
        by (simp add: repeatLoop_limit)
      with r Some show ?thesis by simp
    qed
    with Some r assms show ?thesis
      by (auto simp: matchRepeat_def)
  qed
qed

lemma match_Repeat:
  "match (Suc k) ctx (Repeat mn mx commas operand) m =
     (case repeatLoop (match k ctx) mx commas operand 0 m of
        Inl e \<Rightarrow> Inl e
      | Inr (None, m1) \<Rightarrow>
          Inr (False, m1\<lparr>offset := offset m, result := take (length (result m)) (result m1),
                          captures := take (length (captures m)) (captures m1)\<rparr>)
      | Inr (Some j, m1) \<Rightarrow>
          if mn \<le> int j then Inr (True, m1)
          else Inr (False, m1\<lparr>offset := offset m, result := take (length (result m)) (result m1),
                          captures := take (length (captures m)) (captures m1)\<rparr>))"
  by (simp add: match.simps dispatch_def matchRepeat_def Let_def
      split: sum.splits prod.splits option.splits)

lemmas number_defs = num1_def num2_def num3_def num4_def num5_def comma_def identA_def

section \<open>All-of over operands with values of their own\<close>

lemma takesD:
  assumes "takes k ctx t v rest" and "consistent m" and "upcoming m = v @ rest"
  obtains m' where "match k ctx t m = Inr (True, m')" and "consistent m'"
    and "upcoming m' = rest" and "result m' = result m @ v"
proof -
  from assms obtain m' where m: "match k ctx t m = Inr (True, m')" and u: "upcoming m' = rest"
    unfolding takes_def by blast
  from match_conserves [OF assms(2) m] have c: "consistent m'"
    and "result m' @ upcoming m' = result m @ upcoming m"
    by simp_all
  with u assms(3) have "result m' = result m @ v" by simp
  with m c u that show thesis by blast
qed

lemma refusesD:
  assumes "refuses k ctx t toks" and "consistent m" and "upcoming m = toks"
  obtains m' where "match k ctx t m = Inr (False, m')" and "consistent m'"
    and "upcoming m' = toks" and "result m' = result m" and "captures m' = captures m"
proof -
  from assms obtain m' where m: "match k ctx t m = Inr (False, m')"
    unfolding refuses_def by blast
  from match_conserves [OF assms(2) m] have c: "consistent m'"
    and e: "result m' @ upcoming m' = result m @ upcoming m"
    by simp_all
  from match_rollback [OF m] have r: "result m' = result m" "captures m' = captures m"
    by simp_all
  with e assms(3) have "upcoming m' = toks" by simp
  with m c r that show thesis by blast
qed

lemma scanPending_takes:
  assumes "\<forall>t'\<in>set xs. refuses k ctx t' (v @ rest)" and "takes k ctx t v rest"
    and "consistent m" and "upcoming m = v @ rest"
  shows "\<exists>m'. scanPending (match k ctx) skipped (xs @ t # ys) m
             = Inr (Some (skipped @ xs @ ys), m')
           \<and> consistent m' \<and> upcoming m' = rest \<and> result m' = result m @ v"
  using assms(1,3,4)
proof (induction xs arbitrary: skipped m)
  case Nil
  from takesD [OF assms(2) Nil(2,3)] obtain m' where "match k ctx t m = Inr (True, m')"
    and "consistent m'" and "upcoming m' = rest" and "result m' = result m @ v"
    by blast
  then show ?case by simp
next
  case (Cons x xs)
  from Cons.prems(1) have "refuses k ctx x (v @ rest)" by simp
  from refusesD [OF this Cons.prems(2,3)] obtain m1 where
    m1: "match k ctx x m = Inr (False, m1)" and c1: "consistent m1"
    and f1: "upcoming m1 = v @ rest" "result m1 = result m"
    by blast
  from Cons.prems(1) have "\<forall>t'\<in>set xs. refuses k ctx t' (v @ rest)" by simp
  from Cons.IH [OF this c1 f1(1), of "skipped @ [x]"] m1 f1
  show ?case by auto
qed

lemma scanPending_refuses:
  assumes "\<forall>t\<in>set pending. refuses k ctx t toks" and "consistent m" and "upcoming m = toks"
  shows "\<exists>m'. scanPending (match k ctx) skipped pending m = Inr (None, m')
           \<and> consistent m' \<and> upcoming m' = toks \<and> result m' = result m
           \<and> captures m' = captures m"
  using assms
proof (induction pending arbitrary: skipped m)
  case Nil
  then show ?case by simp
next
  case (Cons t pending)
  from Cons.prems(1) have "refuses k ctx t toks" by simp
  from refusesD [OF this Cons.prems(2,3)] obtain m1 where
    m1: "match k ctx t m = Inr (False, m1)" and c1: "consistent m1"
    and f1: "upcoming m1 = toks" "result m1 = result m" "captures m1 = captures m"
    by blast
  from Cons.prems(1) have "\<forall>t\<in>set pending. refuses k ctx t toks" by simp
  from Cons.IH [OF this c1 f1(1), of "skipped @ [t]"] m1 f1
  show ?case by auto
qed

lemma allOfLoop_values:
  assumes "distinct pws"
    and "\<forall>(t, v)\<in>set pws. v \<noteq> [] \<and> Type (hd v) \<noteq> ErrorToken"
    and "\<forall>x\<in>set pws. \<forall>toks. follows pws x rest toks \<longrightarrow>
           takes k ctx (fst x) (snd x) toks
           \<and> (\<forall>y\<in>set pws. y \<noteq> x \<longrightarrow> refuses k ctx (fst y) (snd x @ toks))"
    and "mset vs = mset (map snd pws)"
    and "consistent m" and "upcoming m = concat vs @ rest"
  shows "\<exists>m'. allOfLoop (match k ctx) (map fst pws) m = Inr (True, m')
           \<and> consistent m' \<and> upcoming m' = rest \<and> result m' = result m @ concat vs"
  using assms
proof (induction vs arbitrary: pws m)
  case Nil
  then have "pws = []" by simp
  with Nil show ?case by (simp add: allOfLoop.simps)
next
  case (Cons v vs)
  let ?toks = "concat vs @ rest"
  from Cons.prems(4) have "v \<in> set (map snd pws)"
    by (metis list.set_intros(1) set_mset_mset)
  then obtain t where tv: "(t, v) \<in> set pws" by auto
  from split_list [OF tv] obtain xs ys where sp: "pws = xs @ (t, v) # ys" by blast
  from Cons.prems(1) sp have nx: "(t, v) \<notin> set (xs @ ys)" by auto
  from Cons.prems(4) sp have ms: "mset vs = mset (map snd (xs @ ys))" by simp
  have fo: "follows pws (t, v) rest ?toks"
  proof (cases vs)
    case Nil
    then show ?thesis by (simp add: follows_def)
  next
    case (Cons v' vs')
    with ms have "v' \<in> set (map snd (xs @ ys))"
      by (metis list.set_intros(1) set_mset_mset)
    then obtain y where y: "y \<in> set (xs @ ys)" and sy: "snd y = v'" by auto
    from y nx have "y \<noteq> (t, v)" by auto
    moreover from y sp have "y \<in> set pws" by auto
    moreover from Cons sy have "?toks = snd y @ (concat vs' @ rest)" by simp
    ultimately show ?thesis unfolding follows_def by blast
  qed
  from Cons.prems(3) tv fo have tk: "takes k ctx t v ?toks"
    and rf: "\<forall>y\<in>set pws. y \<noteq> (t, v) \<longrightarrow> refuses k ctx (fst y) (v @ ?toks)"
    by force+
  from rf nx sp have rx: "\<forall>t'\<in>set (map fst xs). refuses k ctx t' (v @ ?toks)" by auto
  from Cons.prems(2) tv have ne: "v \<noteq> []" and ty: "Type (hd v) \<noteq> ErrorToken" by auto
  from ne Cons.prems(6) have u: "upcoming m = hd v # (tl v @ ?toks)" by simp
  from Cons.prems(5) have "offset m \<le> length (buffer m)" by (simp add: consistent_def)
  from peek_upcoming [OF this u] obtain m1 where p: "peek 1 m = Inr (hd v, m1)"
    and f1: "result m1 = result m" "upcoming m1 = hd v # (tl v @ ?toks)"
    by auto
  from peek_consistent [OF Cons.prems(5) p] have c1: "consistent m1" .
  from f1(2) ne have u1: "upcoming m1 = v @ ?toks" by simp
  from scanPending_takes [OF rx tk c1 u1, of "[]" "map fst ys"] obtain m2 where
    s: "scanPending (match k ctx) [] (map fst pws) m1 = Inr (Some (map fst (xs @ ys)), m2)"
    and c2: "consistent m2"
    and f2: "upcoming m2 = ?toks" "result m2 = result m1 @ v"
    unfolding sp by auto
  have i1: "distinct (xs @ ys)" using Cons.prems(1) sp by auto
  have i2: "\<forall>(t, v)\<in>set (xs @ ys). v \<noteq> [] \<and> Type (hd v) \<noteq> ErrorToken"
    using Cons.prems(2) sp by auto
  have sub: "set (xs @ ys) \<subseteq> set pws" using sp by auto
  have i3: "\<forall>x\<in>set (xs @ ys). \<forall>toks. follows (xs @ ys) x rest toks \<longrightarrow>
           takes k ctx (fst x) (snd x) toks
           \<and> (\<forall>y\<in>set (xs @ ys). y \<noteq> x \<longrightarrow> refuses k ctx (fst y) (snd x @ toks))"
  proof (intro ballI allI impI)
    fix x toks
    assume x: "x \<in> set (xs @ ys)" and f: "follows (xs @ ys) x rest toks"
    from f sub have "follows pws x rest toks" unfolding follows_def by blast
    with Cons.prems(3) x sub
    have "takes k ctx (fst x) (snd x) toks
           \<and> (\<forall>y\<in>set pws. y \<noteq> x \<longrightarrow> refuses k ctx (fst y) (snd x @ toks))"
      by blast
    with sub show "takes k ctx (fst x) (snd x) toks
           \<and> (\<forall>y\<in>set (xs @ ys). y \<noteq> x \<longrightarrow> refuses k ctx (fst y) (snd x @ toks))"
      by blast
  qed
  from Cons.IH [OF i1 i2 i3 ms c2 f2(1)] obtain m' where
    r: "allOfLoop (match k ctx) (map fst (xs @ ys)) m2 = Inr (True, m')"
    and c': "consistent m'" and f': "upcoming m' = rest" "result m' = result m2 @ concat vs"
    by blast
  have nl: "length (map fst pws) \<noteq> 0" using sp by simp
  have "allOfLoop (match k ctx) (map fst pws) m
      = allOfLoop (match k ctx) (map fst (xs @ ys)) m2"
    by (subst allOfLoop.simps) (simp only: nl p s ty if_True if_False sum.case prod.case
        option.case not_False_eq_True)
  with r have "allOfLoop (match k ctx) (map fst pws) m = Inr (True, m')"
    by (simp only:)
  with c' f' f2 f1 show ?case by simp
qed

lemma stream_no_error: "t \<in> set (stream r) \<Longrightarrow> Type t \<noteq> ErrorToken"
  by (auto simp: stream_def dest: set_takeWhileD)

lemma takes_singleToken:
  assumes "singleToken t" and "accepts t v"
  shows "takes (Suc n) ctx t [v] toks"
  unfolding takes_def
proof (intro allI impI, elim conjE)
  fix m
  assume c: "consistent m" and u: "upcoming m = [v] @ toks"
  from accepts_Type [OF assms] have nf: "Type v \<noteq> FunctionToken" by simp
  from u have "upcoming m = v # toks" by simp
  from match_singleToken [OF assms(1) c this nf, of n ctx] assms(2)
  show "\<exists>m'. match (Suc n) ctx t m = Inr (True, m') \<and> upcoming m' = toks" by auto
qed

lemma refuses_singleToken:
  assumes "singleToken t"
    and "toks = [] \<or> (\<not> accepts t (hd toks) \<and> Type (hd toks) \<noteq> FunctionToken)"
  shows "refuses (Suc n) ctx t toks"
  unfolding refuses_def
proof (intro allI impI, elim conjE)
  fix m
  assume c: "consistent m" and u: "upcoming m = toks"
  show "\<exists>m'. match (Suc n) ctx t m = Inr (False, m')"
  proof (cases toks)
    case Nil
    with match_singleToken_exhausted [OF assms(1) c, of n ctx] u show ?thesis by auto
  next
    case (Cons v ts)
    with assms(2) have na: "\<not> accepts t v" and nf: "Type v \<noteq> FunctionToken" by simp_all
    from u Cons have "upcoming m = v # ts" by simp
    from match_singleToken [OF assms(1) c this nf, of n ctx] na show ?thesis by auto
  qed
qed

lemma takes_Repeat:
  assumes "singleToken operand" and "\<forall>v\<in>set vs. accepts operand v"
    and "toks = [] \<or> (\<not> accepts operand (hd toks) \<and> Type (hd toks) \<noteq> FunctionToken)"
    and "mn \<le> int (length vs)" and "int (length vs) \<le> mx"
  shows "takes (Suc (Suc f)) ctx (Repeat mn mx False operand) vs toks"
  unfolding takes_def
proof (intro allI impI, elim conjE)
  fix m
  assume c: "consistent m" and u: "upcoming m = vs @ toks"
  from assms(5) have mi: "min (length vs) (nat (mx - int 0)) = length vs" by simp
  from repeatLoop_values [OF assms(1,2,3) c u, of f ctx mx 0] obtain m' where
    "repeatLoop (match (Suc f) ctx) mx False operand 0 m = Inr (Some (length vs), m')"
    and "upcoming m' = toks"
    unfolding mi by auto
  with assms(4)
  show "\<exists>m'. match (Suc (Suc f)) ctx (Repeat mn mx False operand) m = Inr (True, m')
      \<and> upcoming m' = toks"
    by (simp add: match_Repeat)
qed

lemma refuses_Repeat:
  assumes "singleToken operand" and "\<forall>v\<in>set vs. accepts operand v"
    and "toks = [] \<or> (\<not> accepts operand (hd toks) \<and> Type (hd toks) \<noteq> FunctionToken)"
    and "int (length vs) < mn"
  shows "refuses (Suc (Suc f)) ctx (Repeat mn mx False operand) (vs @ toks)"
  unfolding refuses_def
proof (intro allI impI, elim conjE)
  fix m
  assume c: "consistent m" and u: "upcoming m = vs @ toks"
  from repeatLoop_values [OF assms(1,2,3) c u, of f ctx mx 0] obtain m' where
    "repeatLoop (match (Suc f) ctx) mx False operand 0 m
       = Inr (Some (min (length vs) (nat (mx - int 0))), m')"
    by auto
  moreover from assms(4) have "\<not> mn \<le> int (min (length vs) (nat (mx - int 0)))" by simp
  ultimately show "\<exists>m'. match (Suc (Suc f)) ctx (Repeat mn mx False operand) m = Inr (False, m')"
    by (simp add: match_Repeat)
qed

section \<open>Repetition of an operand that takes its values\<close>

lemma repeatLoop_takes:
  assumes "\<forall>v\<in>set vs. v \<noteq> [] \<and> (\<forall>toks. takes k ctx operand v toks)"
    and "commas \<longrightarrow> 0 < n \<and> Type c = CommaToken"
    and "\<forall>t\<in>set (concat vs @ rest). Type t \<noteq> ErrorToken"
    and "mx \<le> int n + int (length vs) \<or> rest = []
         \<or> (if commas then Type (hd rest) \<noteq> CommaToken else refuses k ctx operand rest)"
    and "consistent m"
    and "upcoming m = concat (map (\<lambda>v. (if commas then [c] else []) @ v) vs) @ rest"
  shows "\<exists>m'. repeatLoop (match k ctx) mx commas operand n m
             = Inr (if commas \<and> int n + int (length vs) < mx \<and> rest \<noteq> [] then None
                    else Some (n + min (length vs) (nat (mx - int n))), m')
           \<and> consistent m'
           \<and> upcoming m'
               = concat (map (\<lambda>v. (if commas then [c] else []) @ v)
                   (drop (min (length vs) (nat (mx - int n))) vs)) @ rest
           \<and> result m'
               = result m @ concat (map (\<lambda>v. (if commas then [c] else []) @ v)
                   (take (min (length vs) (nat (mx - int n))) vs))"
  using assms
proof (induction vs arbitrary: n m)
  case Nil
  from Nil.prems(5) have le: "offset m \<le> length (buffer m)" by (simp add: consistent_def)
  from Nil.prems(6) have u: "upcoming m = rest" by simp
  show ?case
  proof (cases "int n < mx")
    case False
    with Nil.prems(5) u show ?thesis by (simp add: repeatLoop_limit)
  next
    case True
    show ?thesis
    proof (cases rest)
      case Nil
      with u have "upcoming m = []" by simp
      from peek_exhausted [OF le this] obtain e m1 where p: "peek 1 m = Inr (e, m1)"
        and e: "Type e = ErrorToken" and f: "result m1 = result m" "upcoming m1 = []"
        by blast
      from peek_consistent [OF \<open>consistent m\<close> p] have "consistent m1" .
      with repeatLoop_exhausted [OF True p e, of "match k ctx" commas operand] f Nil
      show ?thesis by simp
    next
      case (Cons t ts)
      with Nil.prems(3) have te: "Type t \<noteq> ErrorToken" by simp
      from u Cons have u': "upcoming m = t # ts" by simp
      from peek_upcoming [OF le u'] obtain m1 where p: "peek 1 m = Inr (t, m1)"
        and f: "result m1 = result m" "upcoming m1 = t # ts"
        by blast
      from peek_consistent [OF \<open>consistent m\<close> p] have c1: "consistent m1" .
      show ?thesis
      proof (cases commas)
        case True
        with Nil.prems(2) have n: "0 < n" by simp
        from Nil.prems(4) True Cons \<open>int n < mx\<close> have "Type t \<noteq> CommaToken" by simp
        from repeatLoop_no_comma [OF \<open>int n < mx\<close> p te n True this, of "match k ctx" operand]
          c1 f Cons True \<open>int n < mx\<close>
        show ?thesis by simp
      next
        case False
        with Nil.prems(4) Cons \<open>int n < mx\<close> have "refuses k ctx operand rest" by simp
        from refusesD [OF this c1] f Cons obtain m3 where
          m3: "match k ctx operand m1 = Inr (False, m3)" and c3: "consistent m3"
          and f3: "upcoming m3 = rest" "result m3 = result m1"
          by auto
        from False have "\<not> (0 < n \<and> commas)" by simp
        from repeatLoop_plain [OF \<open>int n < mx\<close> p te this, of "match k ctx" operand] m3
        have "repeatLoop (match k ctx) mx commas operand n m = Inr (Some n, m3)" by simp
        with c3 f3 f False show ?thesis by simp
      qed
    qed
  qed
next
  case (Cons v vs)
  let ?sep = "if commas then [c] else []"
  let ?toks = "concat (map (\<lambda>v. ?sep @ v) vs) @ rest"
  from Cons.prems(5) have le: "offset m \<le> length (buffer m)" by (simp add: consistent_def)
  from Cons.prems(1) have ne: "v \<noteq> []" and tk: "takes k ctx operand v ?toks"
    and vals: "\<forall>v\<in>set vs. v \<noteq> [] \<and> (\<forall>toks. takes k ctx operand v toks)"
    by simp_all
  from Cons.prems(3) ne have hv: "Type (hd v) \<noteq> ErrorToken"
    and noerr: "\<forall>t\<in>set (concat vs @ rest). Type t \<noteq> ErrorToken"
    by (auto intro: hd_in_set)
  show ?case
  proof (cases "int n < mx")
    case False
    then have "min (length (v # vs)) (nat (mx - int n)) = 0" by simp
    with False Cons.prems(5,6) show ?thesis by (simp add: repeatLoop_limit)
  next
    case True
    then have mi: "min (length (v # vs)) (nat (mx - int n))
        = Suc (min (length vs) (nat (mx - int (n + 1))))"
      by (simp add: min_def) arith
    have "\<exists>m3. repeatLoop (match k ctx) mx commas operand n m
               = repeatLoop (match k ctx) mx commas operand (n + 1) m3
            \<and> consistent m3 \<and> upcoming m3 = ?toks \<and> result m3 = result m @ ?sep @ v"
    proof (cases commas)
      case True
      with Cons.prems(2) have n: "0 < n" and tc: "Type c = CommaToken" by simp_all
      from Cons.prems(6) True have u: "upcoming m = c # (v @ ?toks)" by simp
      from peek_upcoming [OF le u] obtain m1 where p: "peek 1 m = Inr (c, m1)"
        and f: "result m1 = result m" "upcoming m1 = c # (v @ ?toks)"
          "offset m1 < length (buffer m1)"
        by blast
      from peek_consistent [OF \<open>consistent m\<close> p] have c1: "consistent m1" .
      from chomp_upcoming [OF c1 f(2,3)] obtain m2 where ch: "chomp m1 = Inr m2"
        and c2: "consistent m2" and f2: "upcoming m2 = v @ ?toks" "result m2 = result m1 @ [c]"
        by blast
      from takesD [OF tk c2 f2(1)] obtain m3 where
        m3: "match k ctx operand m2 = Inr (True, m3)" and c3: "consistent m3"
        and f3: "upcoming m3 = ?toks" "result m3 = result m2 @ v"
        by blast
      from repeatLoop_comma [OF \<open>int n < mx\<close> p n True tc ch, of "match k ctx" operand] m3
      have "repeatLoop (match k ctx) mx commas operand n m
          = repeatLoop (match k ctx) mx commas operand (n + 1) m3"
        by simp
      with c3 f3 f2 f True show ?thesis by auto
    next
      case False
      from Cons.prems(6) False ne have u: "upcoming m = hd v # (tl v @ ?toks)" by simp
      from peek_upcoming [OF le u] obtain m1 where p: "peek 1 m = Inr (hd v, m1)"
        and f: "result m1 = result m" "upcoming m1 = hd v # (tl v @ ?toks)"
        by blast
      from peek_consistent [OF \<open>consistent m\<close> p] have c1: "consistent m1" .
      from f(2) ne have u1: "upcoming m1 = v @ ?toks" by simp
      from takesD [OF tk c1 u1] obtain m3 where
        m3: "match k ctx operand m1 = Inr (True, m3)" and c3: "consistent m3"
        and f3: "upcoming m3 = ?toks" "result m3 = result m1 @ v"
        by blast
      from False have "\<not> (0 < n \<and> commas)" by simp
      from repeatLoop_plain [OF \<open>int n < mx\<close> p hv this, of "match k ctx" operand] m3
      have "repeatLoop (match k ctx) mx commas operand n m
          = repeatLoop (match k ctx) mx commas operand (n + 1) m3"
        by simp
      with c3 f3 f False show ?thesis by auto
    qed
    then obtain m3 where
      st: "repeatLoop (match k ctx) mx commas operand n m
               = repeatLoop (match k ctx) mx commas operand (n + 1) m3"
      and c3: "consistent m3" and u3: "upcoming m3 = ?toks"
      and r3: "result m3 = result m @ ?sep @ v"
      by blast
    from Cons.prems(2) have i2: "commas \<longrightarrow> 0 < n + 1 \<and> Type c = CommaToken" by simp
    from Cons.prems(4) have i4: "mx \<le> int (n + 1) + int (length vs) \<or> rest = []
         \<or> (if commas then Type (hd rest) \<noteq> CommaToken else refuses k ctx operand rest)"
      by (auto split: if_splits)
    from Cons.IH [OF vals i2 noerr i4 c3 u3] obtain m' where
      l: "repeatLoop (match k ctx) mx commas operand (n + 1) m3
             = Inr (if commas \<and> int (n + 1) + int (length vs) < mx \<and> rest \<noteq> [] then None
                    else Some (n + 1 + min (length vs) (nat (mx - int (n + 1)))), m')"
      and c': "consistent m'"
      and u': "upcoming m'
               = concat (map (\<lambda>v. ?sep @ v)
                   (drop (min (length vs) (nat (mx - int (n + 1)))) vs)) @ rest"
      and r': "result m'
               = result m3 @ concat (map (\<lambda>v. ?sep @ v)
                   (take (min (length vs) (nat (mx - int (n + 1)))) vs))"
      by blast
    have a: "int (n + 1) + int (length vs) = int n + int (length (v # vs))" by simp
    from l st c' u' r' r3 show ?thesis
      unfolding mi a by (simp del: of_nat_Suc of_nat_add)
  qed
qed


lemma repeatLoop_none:
  assumes "0 < mx" and "consistent m" and "upcoming m = toks"
    and "\<forall>t\<in>set toks. Type t \<noteq> ErrorToken"
    and "toks = [] \<or> refuses k ctx operand toks"
  shows "\<exists>m'. repeatLoop (match k ctx) mx commas operand 0 m = Inr (Some 0, m')
           \<and> consistent m' \<and> upcoming m' = toks \<and> result m' = result m"
proof -
  from assms(1) have lt: "int 0 < mx" by simp
  from assms(2) have le: "offset m \<le> length (buffer m)" by (simp add: consistent_def)
  show ?thesis
  proof (cases toks)
    case Nil
    with assms(3) have "upcoming m = []" by simp
    from peek_exhausted [OF le this] obtain e m1 where p: "peek 1 m = Inr (e, m1)"
      and e: "Type e = ErrorToken" and f: "result m1 = result m" "upcoming m1 = []"
      by blast
    from peek_consistent [OF assms(2) p] have "consistent m1" .
    with repeatLoop_exhausted [OF lt p e, of "match k ctx" commas operand] f Nil
    show ?thesis by simp
  next
    case (Cons t ts)
    with assms(4) have te: "Type t \<noteq> ErrorToken" by simp
    from assms(3) Cons have u': "upcoming m = t # ts" by simp
    from peek_upcoming [OF le u'] obtain m1 where p: "peek 1 m = Inr (t, m1)"
      and f: "result m1 = result m" "upcoming m1 = t # ts"
      by blast
    from peek_consistent [OF assms(2) p] have c1: "consistent m1" .
    from assms(5) Cons have "refuses k ctx operand toks" by simp
    from refusesD [OF this c1] f Cons obtain m3 where
      m3: "match k ctx operand m1 = Inr (False, m3)" and c3: "consistent m3"
      and f3: "upcoming m3 = toks" "result m3 = result m1"
      by auto
    have "\<not> (0 < (0::nat) \<and> commas)" by simp
    from repeatLoop_plain [OF lt p te this, of "match k ctx" operand] m3
    have "repeatLoop (match k ctx) mx commas operand 0 m = Inr (Some 0, m3)" by simp
    with c3 f3 f show ?thesis by simp
  qed
qed

lemma repeatLoop_first:
  assumes "0 < mx" and "consistent m" and "upcoming m = v @ toks"
    and "v \<noteq> []" and "Type (hd v) \<noteq> ErrorToken" and "takes k ctx operand v toks"
  shows "\<exists>m3. repeatLoop (match k ctx) mx commas operand 0 m
             = repeatLoop (match k ctx) mx commas operand 1 m3
           \<and> consistent m3 \<and> upcoming m3 = toks \<and> result m3 = result m @ v"
proof -
  from assms(1) have lt: "int 0 < mx" by simp
  from assms(2) have le: "offset m \<le> length (buffer m)" by (simp add: consistent_def)
  from assms(3,4) have u: "upcoming m = hd v # (tl v @ toks)" by simp
  from peek_upcoming [OF le u] obtain m1 where p: "peek 1 m = Inr (hd v, m1)"
    and f: "result m1 = result m" "upcoming m1 = hd v # (tl v @ toks)"
    by blast
  from peek_consistent [OF assms(2) p] have c1: "consistent m1" .
  from f(2) assms(4) have u1: "upcoming m1 = v @ toks" by simp
  from takesD [OF assms(6) c1 u1] obtain m3 where
    m3: "match k ctx operand m1 = Inr (True, m3)" and c3: "consistent m3"
    and f3: "upcoming m3 = toks" "result m3 = result m1 @ v"
    by blast
  have "\<not> (0 < (0::nat) \<and> commas)" by simp
  from repeatLoop_plain [OF lt p assms(5) this, of "match k ctx" operand] m3
  have "repeatLoop (match k ctx) mx commas operand 0 m
      = repeatLoop (match k ctx) mx commas operand 1 m3"
    by simp
  with c3 f3 f show ?thesis by auto
qed

lemma repeatLoop_repetitions:
  assumes "\<forall>v\<in>set vs. v \<noteq> [] \<and> (\<forall>toks. takes k ctx operand v toks)"
    and "commas \<longrightarrow> Type c = CommaToken"
    and "\<forall>t\<in>set (concat vs @ rest). Type t \<noteq> ErrorToken"
    and "mx \<le> int (length vs) \<or> rest = []
         \<or> (if commas \<and> vs \<noteq> [] then Type (hd rest) \<noteq> CommaToken
             else refuses k ctx operand rest)"
    and "consistent m" and "upcoming m = repetitions commas c vs @ rest"
  shows "\<exists>m'. repeatLoop (match k ctx) mx commas operand 0 m
             = Inr (if commas \<and> vs \<noteq> [] \<and> int (length vs) < mx \<and> rest \<noteq> [] then None
                    else Some (min (length vs) (nat mx)), m')
           \<and> consistent m'
           \<and> result m' = result m @ repetitions commas c (take (nat mx) vs)"
proof (cases "commas")
  case False
  with assms(6) have u: "upcoming m
      = concat (map (\<lambda>v. (if commas then [c] else []) @ v) vs) @ rest"
    by (simp add: repetitions_def)
  from False have c0: "commas \<longrightarrow> 0 < (0::nat) \<and> Type c = CommaToken" by simp
  from assms(4) False have e: "mx \<le> int 0 + int (length vs) \<or> rest = []
         \<or> (if commas then Type (hd rest) \<noteq> CommaToken else refuses k ctx operand rest)"
    by simp
  from repeatLoop_takes [OF assms(1) c0 assms(3) e assms(5) u] False
  show ?thesis by (auto simp: repetitions_def min_def)
next
  case True
  note commas = True
  show ?thesis
  proof (cases "0 < mx")
    case False
    then have "\<not> int 0 < mx" by simp
    from repeatLoop_limit [OF this, of "match k ctx" commas operand m] False assms(5)
    show ?thesis by (simp add: repetitions_def)
  next
    case True
    show ?thesis
    proof (cases vs)
      case Nil
      with assms(3) have ne: "\<forall>t\<in>set rest. Type t \<noteq> ErrorToken" by simp
      from assms(4) Nil True have "rest = [] \<or> refuses k ctx operand rest" by simp
      from repeatLoop_none [OF True assms(5) _ ne this, of commas] assms(6) Nil
      show ?thesis by (auto simp: repetitions_def)
    next
      case (Cons v ws)
      let ?toks = "concat (map (\<lambda>v. (if commas then [c] else []) @ v) ws) @ rest"
      from assms(1) Cons have ne: "v \<noteq> []" and tk: "takes k ctx operand v ?toks"
        and vals: "\<forall>v\<in>set ws. v \<noteq> [] \<and> (\<forall>toks. takes k ctx operand v toks)"
        by simp_all
      from assms(3) Cons ne have hv: "Type (hd v) \<noteq> ErrorToken"
        and noerr: "\<forall>t\<in>set (concat ws @ rest). Type t \<noteq> ErrorToken"
        by (auto intro: hd_in_set)
      from assms(6) Cons commas have u: "upcoming m = v @ ?toks"
        by (simp add: repetitions_def)
      from repeatLoop_first [OF True assms(5) u ne hv tk, of commas] obtain m3 where
        st: "repeatLoop (match k ctx) mx commas operand 0 m
             = repeatLoop (match k ctx) mx commas operand 1 m3"
        and c3: "consistent m3" and u3: "upcoming m3 = ?toks" and r3: "result m3 = result m @ v"
        by blast
      from assms(2) have c1: "commas \<longrightarrow> 0 < (1::nat) \<and> Type c = CommaToken" by simp
      from assms(4) Cons commas have e: "mx \<le> int 1 + int (length ws) \<or> rest = []
         \<or> (if commas then Type (hd rest) \<noteq> CommaToken else refuses k ctx operand rest)"
        by auto
      from repeatLoop_takes [OF vals c1 noerr e c3 u3] obtain m' where
        l: "repeatLoop (match k ctx) mx commas operand 1 m3
             = Inr (if commas \<and> int 1 + int (length ws) < mx \<and> rest \<noteq> [] then None
                    else Some (1 + min (length ws) (nat (mx - int 1))), m')"
        and c': "consistent m'"
        and r': "result m'
               = result m3 @ concat (map (\<lambda>v. (if commas then [c] else []) @ v)
                   (take (min (length ws) (nat (mx - int 1))) ws))"
        by blast
      from True have mi: "min (length (v # ws)) (nat mx)
          = Suc (min (length ws) (nat (mx - int 1)))"
        by (simp add: min_def) arith
      from True have tk: "take (nat mx) (v # ws) = v # take (nat (mx - int 1)) ws"
        by (cases "nat mx") (simp_all add: nat_diff_distrib')
      have a: "int 1 + int (length ws) = int (length (v # ws))" by simp
      have tm: "take (min (length ws) j) ws = take j ws" for j by (simp add: min_def)
      from l st c' r' r3 commas show ?thesis
        unfolding Cons mi a tk tm by (simp add: repetitions_def del: of_nat_Suc)
    qed
  qed
qed

lemma separated_tokens: "set (concat vs) \<subseteq> set (repetitions commas c vs)"
  by (cases vs) (auto simp: repetitions_def)

section \<open>Shape of the parsed terms\<close>



lemma errorsNew_Inr [simp]: "errorsNew msg \<noteq> Inr x"
  by (simp add: errorsNew_def)













section \<open>The lexer at a minus sign\<close>

text \<open>
  \<^verbatim>\<open>lexIdentOrNumberOrToken\<close> is entered with the minus sign buffered by \<^verbatim>\<open>peek\<close>. It reads
  the character after it with \<^verbatim>\<open>readRune\<close>, which leaves the buffer alone, so that its
  \<^verbatim>\<open>peek\<close> answers the minus sign again: the token is an identifier whatever follows,
  unless the input ends at the minus sign.
\<close>

lemma readRune_buffer:
  assumes "readRune l = Inr (x, l1)"
  shows "l_nb l1 = l_nb l \<and> l_buf l1 = l_buf l"
  using assms
  by (auto simp: readRune_def Let_def split: list.splits if_splits)

lemma lexIdent_token:
  assumes "lexIdent k first l = Inr ((t, err), l')"
  shows "t = identToken \<and> err = None"
  using assms
  by (auto simp: lexIdent_def andThen_def split: sum.splits prod.splits)

lemma minus_never_number:
  assumes "l_nb l = 1" and "l_buf l = rune CHR ''-''"
    and "lexIdentOrNumberOrToken k l = Inr ((t, err), l')"
  shows "(t = identToken \<and> err = None) \<or> (t = 0 \<and> err \<noteq> None)"
proof -
  from assms(3) obtain first e l1 where r: "readRune l = Inr ((first, e), l1)"
    by (auto simp: lexIdentOrNumberOrToken_def andThen_def split: sum.splits prod.splits)
  from readRune_buffer [OF r] assms(1,2) have b: "l_nb l1 = 1" "l_buf l1 = rune CHR ''-''"
    by simp_all
  then have p: "lexer_peek l1 = Inr (rune CHR ''-'', l1)" by (simp add: lexer_peek_def)
  have s: "startsIdent (rune CHR ''-'')" by (simp add: startsIdent_def)
  have d: "\<not> (rune CHR ''-'' \<ge> rune CHR ''0'' \<and> rune CHR ''-'' \<le> rune CHR ''9''
      \<or> rune CHR ''-'' = infinity)"
    by (simp add: rune_def infinity_def)
  show ?thesis
  proof (cases "e = None")
    case True
    with assms(3) r p s d have "lexIdent k first l1 = Inr ((t, err), l')"
      by (simp add: lexIdentOrNumberOrToken_def andThen_def)
    from lexIdent_token [OF this] show ?thesis by simp
  next
    case False
    with assms(3) r show ?thesis
      by (auto simp: lexIdentOrNumberOrToken_def andThen_def)
  qed
qed

lemma lex_minus:
  assumes "lex k (newLexer (CHR ''-'' # s)) = Inr (err, l')"
  shows "(l_token l' = identToken \<and> err = None) \<or> (l_token l' = 0 \<and> err \<noteq> None)"
proof -
  let ?l1 = "\<lparr>l_r = s, l_buf = rune CHR ''-'', l_err = None, l_nb = 1, l_token = 0,
      l_value = []\<rparr>"
  have p: "lexer_peek (newLexer (CHR ''-'' # s)\<lparr>l_value := []\<rparr>) = Inr (rune CHR ''-'', ?l1)"
    by (simp add: lexer_peek_def newLexer_def readRune_def RuneStart_def leadingOnes_def
        andThen_def rune_def)
  from assms obtain k' where k: "k = Suc k'"
    by (cases k) (auto simp: lex_def lexNext_def andThen_def)
  have n: "rune CHR ''-'' \<noteq> 0" by (simp add: rune_def)
  from assms obtain t l2 where
    "lexIdentOrNumberOrToken k' ?l1 = Inr ((t, err), l2)" and "l' = l2\<lparr>l_token := t\<rparr>"
    unfolding k lex_def lexNext_def lexLoop.simps p
    by (auto simp: andThen_def n split: sum.splits prod.splits)
  with minus_never_number [of ?l1 k' t err l2] show ?thesis by simp
qed

section \<open>A comma in the notation and in the values\<close>




section \<open>The claims\<close>

text \<open>
  C1. Rollback atomicity: whatever the kind of the term, when \<open>match\<close> reports
  failure the consumption offset, the length of the accumulated result and the number
  of accumulated captures are what they were before the attempt; the result and the
  captures are even the same lists, so no partial consumption or capture survives.
\<close>

theorem rollback_atomicity:
  assumes "match n ctx t m = Inr (False, m')"
  shows "offset m' = offset m
       \<and> length (result m') = length (result m)
       \<and> length (captures m') = length (captures m)
       \<and> result m' = result m \<and> captures m' = captures m"
  using match_rollback [OF assms] by simp


theorem rollback_atomicity_witness:
  "match 2 noContext (Seq [] [Keyword ''a'', Keyword ''b''])
     (newMatcher [\<lparr>Type = IdentToken, Value = ''a''\<rparr>, \<lparr>Type = IdentToken, Value = ''c''\<rparr>])
   = Inr (False,
       \<lparr>buffer = [\<lparr>Type = IdentToken, Value = ''a''\<rparr>, \<lparr>Type = IdentToken, Value = ''c''\<rparr>],
        offset = 0, lexer = [], result = [], captures = []\<rparr>)
   \<and> offset \<lparr>buffer = [\<lparr>Type = IdentToken, Value = ''a''\<rparr>, \<lparr>Type = IdentToken, Value = ''c''\<rparr>],
        offset = 0, lexer = [], result = [], captures = []\<rparr>
     = offset (newMatcher
         [\<lparr>Type = IdentToken, Value = ''a''\<rparr>, \<lparr>Type = IdentToken, Value = ''c''\<rparr>])
   \<and> length (result \<lparr>buffer = [\<lparr>Type = IdentToken, Value = ''a''\<rparr>, \<lparr>Type = IdentToken, Value = ''c''\<rparr>],
        offset = 0, lexer = [], result = [], captures = []\<rparr>)
     = length (result (newMatcher
         [\<lparr>Type = IdentToken, Value = ''a''\<rparr>, \<lparr>Type = IdentToken, Value = ''c''\<rparr>]))"
proof -
  have h: "match 2 noContext (Seq [] [Keyword ''a'', Keyword ''b''])
     (newMatcher [\<lparr>Type = IdentToken, Value = ''a''\<rparr>, \<lparr>Type = IdentToken, Value = ''c''\<rparr>])
   = Inr (False,
       \<lparr>buffer = [\<lparr>Type = IdentToken, Value = ''a''\<rparr>, \<lparr>Type = IdentToken, Value = ''c''\<rparr>],
        offset = 0, lexer = [], result = [], captures = []\<rparr>)"
    by code_simp
  from rollback_atomicity [OF h] h show ?thesis by simp
qed


text \<open>
  C2. A reference whose name is absent from its mapping fails to match without an
  error, and a non-terminal whose name resolves and whose term matches succeeds with
  one capture named after it. A property type does not: \<^verbatim>\<open>matchPropertyType\<close>
  returns false also after its term has matched, so the reference fails and the capture
  is rolled back. The evaluation below runs both references, bound to the same term, on
  the same value.
\<close>

theorem propertyType_resolved_fails:
  "match 2 bindingContext (BasicType ''number'' None)
       (newMatcher [\<lparr>Type = NumberToken, Value = ''200''\<rparr>])
     = Inr (True, \<lparr>buffer = [\<lparr>Type = NumberToken, Value = ''200''\<rparr>], offset = 1, lexer = [],
          result = [\<lparr>Type = NumberToken, Value = ''200''\<rparr>], captures = []\<rparr>)
   \<and> Match 3 bindingContext (PropertyType ''width'') [\<lparr>Type = NumberToken, Value = ''200''\<rparr>]
     = Inr []
   \<and> Match 3 bindingContext (NonTerminal ''width'') [\<lparr>Type = NumberToken, Value = ''200''\<rparr>]
     = Inr [\<lparr>Name = ''width'', Values = [\<lparr>Type = NumberToken, Value = ''200''\<rparr>]\<rparr>,
            \<lparr>Name = [], Values = [\<lparr>Type = NumberToken, Value = ''200''\<rparr>]\<rparr>]"
  by code_simp


text \<open>
  C5. \<open>Match\<close> returns the nil slice exactly when the term does not match: when \<open>match\<close>
  reports failure \<open>Match\<close> returns nil, when it reports success \<open>Match\<close> returns a list
  that is not nil, and a panic of \<open>match\<close> is the panic of \<open>Match\<close>. A result that is
  not nil ends with the anonymous capture, appended after all the captures of the match,
  and the tokens of that capture are the consumed tokens: the first \<open>offset\<close> tokens of
  the stream.
\<close>

theorem Match_result:
  "(match fuel ctx t (newMatcher r) = Inr (b, m1) \<longrightarrow>
      Match fuel ctx t r
        = Inr (if b then captures m1 @ [\<lparr>Name = [], Values = take (offset m1) (stream r)\<rparr>]
               else [])
      \<and> (Match fuel ctx t r = Inr [] \<longleftrightarrow> \<not> b))
   \<and> (match fuel ctx t (newMatcher r) = Inl e \<longrightarrow> Match fuel ctx t r = Inl e)
   \<and> (Match fuel ctx t r = Inr cs \<longrightarrow>
        (cs = [] \<longleftrightarrow> (\<exists>m'. match fuel ctx t (newMatcher r) = Inr (False, m')))
        \<and> (cs \<noteq> [] \<longrightarrow>
             (\<exists>m'. match fuel ctx t (newMatcher r) = Inr (True, m')
                \<and> cs = captures m' @ [\<lparr>Name = [], Values = result m'\<rparr>]
                \<and> Name (last cs) = []
                \<and> Values (last cs) = take (offset m') (stream r))))"
proof -
  have 1: "Match fuel ctx t r
        = Inr (if b then captures m1 @ [\<lparr>Name = [], Values = take (offset m1) (stream r)\<rparr>]
               else [])
      \<and> (Match fuel ctx t r = Inr [] \<longleftrightarrow> \<not> b)"
    if m: "match fuel ctx t (newMatcher r) = Inr (b, m1)"
  proof -
    from match_consumed [OF m] have "result m1 = take (offset m1) (stream r)" by simp
    with m show ?thesis by (simp add: Match_def)
  qed
  have 2: "Match fuel ctx t r = Inl e" if "match fuel ctx t (newMatcher r) = Inl e"
    using that by (simp add: Match_def)
  have 3: "(cs = [] \<longleftrightarrow> (\<exists>m'. match fuel ctx t (newMatcher r) = Inr (False, m')))
        \<and> (cs \<noteq> [] \<longrightarrow>
             (\<exists>m'. match fuel ctx t (newMatcher r) = Inr (True, m')
                \<and> cs = captures m' @ [\<lparr>Name = [], Values = result m'\<rparr>]
                \<and> Name (last cs) = []
                \<and> Values (last cs) = take (offset m') (stream r)))"
    if a: "Match fuel ctx t r = Inr cs"
  proof -
    from a obtain b' m' where m: "match fuel ctx t (newMatcher r) = Inr (b', m')"
      by (auto simp: Match_def split: sum.splits)
    from match_consumed [OF m] have r: "result m' = take (offset m') (stream r)" by simp
    show ?thesis
    proof (cases b')
      case True
      with a m r show ?thesis by (auto simp: Match_def)
    next
      case False
      with a m show ?thesis by (auto simp: Match_def)
    qed
  qed
  from 1 2 3 show ?thesis by blast
qed

theorem Match_result_witness:
  "Match 3 bindingContext (Seq [] [NonTerminal ''width'', Keyword ''auto''])
      [\<lparr>Type = NumberToken, Value = ''200''\<rparr>, \<lparr>Type = WhitespaceToken, Value = '' ''\<rparr>,
       \<lparr>Type = IdentToken, Value = ''auto''\<rparr>]
     = Inr [\<lparr>Name = ''width'', Values = [\<lparr>Type = NumberToken, Value = ''200''\<rparr>]\<rparr>,
            \<lparr>Name = [], Values = [\<lparr>Type = NumberToken, Value = ''200''\<rparr>,
                                  \<lparr>Type = IdentToken, Value = ''auto''\<rparr>]\<rparr>]
   \<and> Match 3 bindingContext (Seq [] [NonTerminal ''width'', Keyword ''auto''])
      [\<lparr>Type = NumberToken, Value = ''200''\<rparr>, \<lparr>Type = WhitespaceToken, Value = '' ''\<rparr>,
       \<lparr>Type = IdentToken, Value = ''none''\<rparr>]
     = Inr []
   \<and> (\<exists>m'. match 3 bindingContext (Seq [] [NonTerminal ''width'', Keyword ''auto''])
          (newMatcher [\<lparr>Type = NumberToken, Value = ''200''\<rparr>,
             \<lparr>Type = WhitespaceToken, Value = '' ''\<rparr>, \<lparr>Type = IdentToken, Value = ''none''\<rparr>])
         = Inr (False, m'))"
proof -
  let ?t = "Seq [] [NonTerminal ''width'', Keyword ''auto'']"
  let ?n = "\<lparr>Type = NumberToken, Value = ''200''\<rparr>"
  let ?s = "\<lparr>Type = WhitespaceToken, Value = '' ''\<rparr>"
  let ?a = "\<lparr>Type = IdentToken, Value = ''auto''\<rparr>"
  let ?o = "\<lparr>Type = IdentToken, Value = ''none''\<rparr>"
  let ?m1 = "\<lparr>buffer = [?n, ?a], offset = 2, lexer = [], result = [?n, ?a],
      captures = [\<lparr>Name = ''width'', Values = [?n]\<rparr>]\<rparr>"
  let ?m2 = "\<lparr>buffer = [?n, ?o], offset = 0, lexer = [], result = [], captures = []\<rparr>"
  have h1: "match 3 bindingContext ?t (newMatcher [?n, ?s, ?a]) = Inr (True, ?m1)"
    by code_simp
  have h2: "match 3 bindingContext ?t (newMatcher [?n, ?s, ?o]) = Inr (False, ?m2)"
    by code_simp
  have s1: "stream [?n, ?s, ?a] = [?n, ?a]" by (simp add: stream_def)
  note t1 = Match_result [of 3 bindingContext ?t "[?n, ?s, ?a]" True ?m1, THEN conjunct1,
      rule_format, OF h1, THEN conjunct1]
  note t2 = Match_result [of 3 bindingContext ?t "[?n, ?s, ?o]" False ?m2, THEN conjunct1,
      rule_format, OF h2, THEN conjunct1]
  note t3 = Match_result [of 3 bindingContext ?t "[?n, ?s, ?o]" _ _ _ "[]", THEN conjunct2,
      THEN conjunct2, rule_format, OF t2 [simplified], THEN conjunct1]
  from t1 have a: "Match 3 bindingContext ?t [?n, ?s, ?a]
      = Inr [\<lparr>Name = ''width'', Values = [?n]\<rparr>, \<lparr>Name = [], Values = [?n, ?a]\<rparr>]"
    unfolding s1 by simp
  from t2 have b: "Match 3 bindingContext ?t [?n, ?s, ?o] = Inr []" by simp
  from t3 have c: "\<exists>m'. match 3 bindingContext ?t (newMatcher [?n, ?s, ?o]) = Inr (False, m')"
    by simp
  from a b c show ?thesis by blast
qed


text \<open>
  C9. \<open>Match\<close> does not require the stream to be exhausted: whenever the term matches,
  \<open>Match\<close> succeeds, its anonymous capture holds the consumed prefix of the stream
  only, and the tokens after that prefix are still to come.
\<close>

theorem Match_prefix:
  assumes "match fuel ctx t (newMatcher r) = Inr (True, m1)"
  shows "Match fuel ctx t r
           = Inr (captures m1 @ [\<lparr>Name = [], Values = take (offset m1) (stream r)\<rparr>])
       \<and> upcoming m1 = drop (offset m1) (stream r)"
  using assms match_consumed [OF assms] by (simp add: Match_def)

theorem Match_prefix_witness:
  "match 2 noContext (BasicType ''integer'' None)
      (newMatcher [\<lparr>Type = NumberToken, Value = ''3''\<rparr>, \<lparr>Type = WhitespaceToken, Value = '' ''\<rparr>,
         \<lparr>Type = IdentToken, Value = ''foo''\<rparr>])
     = Inr (True, \<lparr>buffer = [\<lparr>Type = NumberToken, Value = ''3''\<rparr>], offset = 1,
         lexer = [\<lparr>Type = WhitespaceToken, Value = '' ''\<rparr>, \<lparr>Type = IdentToken, Value = ''foo''\<rparr>],
         result = [\<lparr>Type = NumberToken, Value = ''3''\<rparr>], captures = []\<rparr>)
   \<and> Match 2 noContext (BasicType ''integer'' None)
      [\<lparr>Type = NumberToken, Value = ''3''\<rparr>, \<lparr>Type = WhitespaceToken, Value = '' ''\<rparr>,
       \<lparr>Type = IdentToken, Value = ''foo''\<rparr>]
     = Inr [\<lparr>Name = [], Values = [\<lparr>Type = NumberToken, Value = ''3''\<rparr>]\<rparr>]
   \<and> upcoming \<lparr>buffer = [\<lparr>Type = NumberToken, Value = ''3''\<rparr>], offset = 1,
         lexer = [\<lparr>Type = WhitespaceToken, Value = '' ''\<rparr>, \<lparr>Type = IdentToken, Value = ''foo''\<rparr>],
         result = [\<lparr>Type = NumberToken, Value = ''3''\<rparr>], captures = []\<rparr>
     = [\<lparr>Type = IdentToken, Value = ''foo''\<rparr>]"
proof -
  have h: "match 2 noContext (BasicType ''integer'' None)
      (newMatcher [\<lparr>Type = NumberToken, Value = ''3''\<rparr>, \<lparr>Type = WhitespaceToken, Value = '' ''\<rparr>,
         \<lparr>Type = IdentToken, Value = ''foo''\<rparr>])
     = Inr (True, \<lparr>buffer = [\<lparr>Type = NumberToken, Value = ''3''\<rparr>], offset = 1,
         lexer = [\<lparr>Type = WhitespaceToken, Value = '' ''\<rparr>, \<lparr>Type = IdentToken, Value = ''foo''\<rparr>],
         result = [\<lparr>Type = NumberToken, Value = ''3''\<rparr>], captures = []\<rparr>)"
    by code_simp
  from Match_prefix [OF h] h show ?thesis by (simp add: stream_def)
qed


text \<open>
  C7. All-of commutativity. As stated the property fails for an operand that can match
  nothing: in \<^verbatim>\<open>inset? && <length>{2,4} && <percentage>\<close> the optional keyword matches
  the empty sequence at the first scan wherever it stands, and is no longer pending when
  its value comes (\<open>5% inset 2px 2px\<close> does not match). It holds when each operand, with
  a non-empty value of its own, takes exactly that value wherever the rest of the stream
  or the value of another operand follows it, and refuses the tokens to come wherever
  the value of another operand comes first. Then every permutation of the values
  matches, and exactly the values are consumed. The matcher succeeds when nothing is
  pending; with operands pending it fails when the stream is exhausted and when every
  pending operand refuses what is to come; a scan removes the first pending operand, in
  the original order, that matches.
\<close>

theorem allOf_commutativity:
  assumes "distinct pws"
    and "\<forall>(t, v)\<in>set pws. v \<noteq> []"
    and "\<forall>x\<in>set pws. \<forall>toks. follows pws x rest toks \<longrightarrow>
           takes k ctx (fst x) (snd x) toks
           \<and> (\<forall>y\<in>set pws. y \<noteq> x \<longrightarrow> refuses k ctx (fst y) (snd x @ toks))"
    and "mset vs = mset (map snd pws)"
    and "stream r = concat vs @ rest"
  shows "(\<exists>m'. match (Suc k) ctx (AllOf (map fst pws)) (newMatcher r) = Inr (True, m')
           \<and> result m' = concat vs \<and> upcoming m' = rest
           \<and> Match (Suc k) ctx (AllOf (map fst pws)) r
               = Inr (captures m' @ [\<lparr>Name = [], Values = concat vs\<rparr>]))
    \<and> matchAllOf mt [] m0 = Inr (True, m0)
    \<and> (pending \<noteq> [] \<and> consistent m1 \<and> upcoming m1 = [] \<longrightarrow>
          (\<exists>m'. matchAllOf mt pending m1 = Inr (False, m')))
    \<and> (pending \<noteq> [] \<and> consistent m2 \<and> upcoming m2 = u # ts \<and> Type u \<noteq> ErrorToken
          \<and> (\<forall>t\<in>set pending. refuses k ctx t (u # ts)) \<longrightarrow>
          (\<exists>m'. matchAllOf (match k ctx) pending m2 = Inr (False, m')))
    \<and> (consistent m3 \<and> upcoming m3 = w @ ts' \<and> takes k ctx t w ts'
          \<and> (\<forall>t'\<in>set skipped. refuses k ctx t' (w @ ts')) \<longrightarrow>
          (\<exists>m'. scanPending (match k ctx) [] (skipped @ t # later) m3
                  = Inr (Some (skipped @ later), m')
                \<and> result m' = result m3 @ w \<and> upcoming m' = ts'))"
proof -
  have c: "consistent (newMatcher r)" by (rule newMatcher_consistent)
  have u: "upcoming (newMatcher r) = concat vs @ rest"
    using assms(5) by (simp add: newMatcher_upcoming)
  have ne: "\<forall>(t, v)\<in>set pws. v \<noteq> [] \<and> Type (hd v) \<noteq> ErrorToken"
  proof (intro ballI, clarify)
    fix t v
    assume tv: "(t, v) \<in> set pws"
    with assms(2) have n: "v \<noteq> []" by auto
    from tv assms(4) have "v \<in> set vs"
      by (metis image_eqI list.set_map set_mset_mset snd_conv)
    with n have "hd v \<in> set (concat vs)" by (auto intro: hd_in_set)
    with assms(5) have "hd v \<in> set (stream r)" by simp
    from stream_no_error [OF this] n show "v \<noteq> [] \<and> Type (hd v) \<noteq> ErrorToken" by simp
  qed
  from allOfLoop_values [OF assms(1) ne assms(3,4) c u] obtain m' where
    a: "allOfLoop (match k ctx) (map fst pws) (newMatcher r) = Inr (True, m')"
    and r: "result m' = result (newMatcher r) @ concat vs" and u': "upcoming m' = rest"
    by blast
  from a have "dispatch k (match k ctx) ctx (AllOf (map fst pws)) (newMatcher r) = Inr (True, m')"
    by (simp add: dispatch_def matchAllOf_def)
  from match_of_dispatch [OF this]
  have m: "match (Suc k) ctx (AllOf (map fst pws)) (newMatcher r) = Inr (True, m')" by simp
  from r have r': "result m' = concat vs" by (simp add: newMatcher_def)
  from m r' have "Match (Suc k) ctx (AllOf (map fst pws)) r
      = Inr (captures m' @ [\<lparr>Name = [], Values = concat vs\<rparr>])"
    by (simp add: Match_def)
  with m r' u' have 1: "\<exists>m'. match (Suc k) ctx (AllOf (map fst pws)) (newMatcher r) = Inr (True, m')
           \<and> result m' = concat vs \<and> upcoming m' = rest
           \<and> Match (Suc k) ctx (AllOf (map fst pws)) r
               = Inr (captures m' @ [\<lparr>Name = [], Values = concat vs\<rparr>])"
    by blast
  have 2: "matchAllOf mt [] m0 = Inr (True, m0)"
    by (simp add: matchAllOf_def allOfLoop.simps)
  have 3: "\<exists>m'. matchAllOf mt pending m1 = Inr (False, m')"
    if a: "pending \<noteq> [] \<and> consistent m1 \<and> upcoming m1 = []"
  proof -
    from a have "offset m1 \<le> length (buffer m1)" by (simp add: consistent_def)
    from peek_exhausted [OF this] a obtain e m' where "peek 1 m1 = Inr (e, m')"
      and "Type e = ErrorToken"
      by blast
    with a show ?thesis
      unfolding matchAllOf_def by (subst allOfLoop.simps) simp
  qed
  have 4: "\<exists>m'. matchAllOf (match k ctx) pending m2 = Inr (False, m')"
    if a: "pending \<noteq> [] \<and> consistent m2 \<and> upcoming m2 = u # ts \<and> Type u \<noteq> ErrorToken
          \<and> (\<forall>t\<in>set pending. refuses k ctx t (u # ts))"
  proof -
    from a have "offset m2 \<le> length (buffer m2)" by (simp add: consistent_def)
    from peek_upcoming [OF this] a obtain m' where p: "peek 1 m2 = Inr (u, m')"
      and u: "upcoming m' = u # ts"
      by blast
    from a peek_consistent [OF _ p] have c: "consistent m'" by blast
    from a have rj: "\<forall>t\<in>set pending. refuses k ctx t (u # ts)" by simp
    from scanPending_refuses [OF rj c u, of "[]"] obtain m'' where
      "scanPending (match k ctx) [] pending m' = Inr (None, m'')"
      by blast
    with a p show ?thesis
      unfolding matchAllOf_def by (subst allOfLoop.simps) simp
  qed
  have 5: "\<exists>m'. scanPending (match k ctx) [] (skipped @ t # later) m3
                  = Inr (Some (skipped @ later), m')
                \<and> result m' = result m3 @ w \<and> upcoming m' = ts'"
    if a: "consistent m3 \<and> upcoming m3 = w @ ts' \<and> takes k ctx t w ts'
          \<and> (\<forall>t'\<in>set skipped. refuses k ctx t' (w @ ts'))"
  proof -
    from a have rj: "\<forall>t'\<in>set skipped. refuses k ctx t' (w @ ts')" and tk: "takes k ctx t w ts'"
      and c: "consistent m3" and u: "upcoming m3 = w @ ts'"
      by simp_all
    from scanPending_takes [OF rj tk c u, of "[]" later] show ?thesis by auto
  qed
  from 1 2 3 4 5 show ?thesis by blast
qed

theorem allOf_commutativity_witness:
  "(\<exists>m'. match 3 noContext (AllOf (map fst insetLengthsPercentage))
            (newMatcher [kwInset, len2px, len2px, pct5, space, num3]) = Inr (True, m')
        \<and> result m' = [kwInset, len2px, len2px, pct5] \<and> upcoming m' = [num3]
        \<and> Match 3 noContext (AllOf (map fst insetLengthsPercentage)) [kwInset, len2px, len2px, pct5, space, num3]
            = Inr (captures m' @ [\<lparr>Name = [], Values = [kwInset, len2px, len2px, pct5]\<rparr>]))
   \<and> Match 3 noContext (AllOf (map fst insetLengthsPercentage)) [kwInset, len2px, len2px, pct5, space, num3]
       = Inr [\<lparr>Name = [], Values = [kwInset, len2px, len2px, pct5]\<rparr>]
   \<and> (\<exists>m'. match 3 noContext (AllOf (map fst insetLengthsPercentage))
            (newMatcher [kwInset, pct5, len2px, len2px, space, num3]) = Inr (True, m')
        \<and> result m' = [kwInset, pct5, len2px, len2px] \<and> upcoming m' = [num3]
        \<and> Match 3 noContext (AllOf (map fst insetLengthsPercentage)) [kwInset, pct5, len2px, len2px, space, num3]
            = Inr (captures m' @ [\<lparr>Name = [], Values = [kwInset, pct5, len2px, len2px]\<rparr>]))
   \<and> Match 3 noContext (AllOf (map fst insetLengthsPercentage)) [kwInset, pct5, len2px, len2px, space, num3]
       = Inr [\<lparr>Name = [], Values = [kwInset, pct5, len2px, len2px]\<rparr>]
   \<and> (\<exists>m'. match 3 noContext (AllOf (map fst insetLengthsPercentage))
            (newMatcher [len2px, len2px, kwInset, pct5, space, num3]) = Inr (True, m')
        \<and> result m' = [len2px, len2px, kwInset, pct5] \<and> upcoming m' = [num3]
        \<and> Match 3 noContext (AllOf (map fst insetLengthsPercentage)) [len2px, len2px, kwInset, pct5, space, num3]
            = Inr (captures m' @ [\<lparr>Name = [], Values = [len2px, len2px, kwInset, pct5]\<rparr>]))
   \<and> Match 3 noContext (AllOf (map fst insetLengthsPercentage)) [len2px, len2px, kwInset, pct5, space, num3]
       = Inr [\<lparr>Name = [], Values = [len2px, len2px, kwInset, pct5]\<rparr>]
   \<and> (\<exists>m'. match 3 noContext (AllOf (map fst insetLengthsPercentage))
            (newMatcher [len2px, len2px, pct5, kwInset, space, num3]) = Inr (True, m')
        \<and> result m' = [len2px, len2px, pct5, kwInset] \<and> upcoming m' = [num3]
        \<and> Match 3 noContext (AllOf (map fst insetLengthsPercentage)) [len2px, len2px, pct5, kwInset, space, num3]
            = Inr (captures m' @ [\<lparr>Name = [], Values = [len2px, len2px, pct5, kwInset]\<rparr>]))
   \<and> Match 3 noContext (AllOf (map fst insetLengthsPercentage)) [len2px, len2px, pct5, kwInset, space, num3]
       = Inr [\<lparr>Name = [], Values = [len2px, len2px, pct5, kwInset]\<rparr>]
   \<and> (\<exists>m'. match 3 noContext (AllOf (map fst insetLengthsPercentage))
            (newMatcher [pct5, kwInset, len2px, len2px, space, num3]) = Inr (True, m')
        \<and> result m' = [pct5, kwInset, len2px, len2px] \<and> upcoming m' = [num3]
        \<and> Match 3 noContext (AllOf (map fst insetLengthsPercentage)) [pct5, kwInset, len2px, len2px, space, num3]
            = Inr (captures m' @ [\<lparr>Name = [], Values = [pct5, kwInset, len2px, len2px]\<rparr>]))
   \<and> Match 3 noContext (AllOf (map fst insetLengthsPercentage)) [pct5, kwInset, len2px, len2px, space, num3]
       = Inr [\<lparr>Name = [], Values = [pct5, kwInset, len2px, len2px]\<rparr>]
   \<and> (\<exists>m'. match 3 noContext (AllOf (map fst insetLengthsPercentage))
            (newMatcher [pct5, len2px, len2px, kwInset, space, num3]) = Inr (True, m')
        \<and> result m' = [pct5, len2px, len2px, kwInset] \<and> upcoming m' = [num3]
        \<and> Match 3 noContext (AllOf (map fst insetLengthsPercentage)) [pct5, len2px, len2px, kwInset, space, num3]
            = Inr (captures m' @ [\<lparr>Name = [], Values = [pct5, len2px, len2px, kwInset]\<rparr>]))
   \<and> Match 3 noContext (AllOf (map fst insetLengthsPercentage)) [pct5, len2px, len2px, kwInset, space, num3]
       = Inr [\<lparr>Name = [], Values = [pct5, len2px, len2px, kwInset]\<rparr>]
   \<and> (\<exists>m'. matchAllOf (match 2 noContext)
          [Keyword ''inset'', Repeat 2 4 False (BasicType ''length'' None)] (newMatcher [])
          = Inr (False, m'))
   \<and> (\<exists>m'. matchAllOf (match 2 noContext)
          [Keyword ''inset'', Repeat 2 4 False (BasicType ''length'' None)] (newMatcher [pct5])
          = Inr (False, m'))
   \<and> (\<exists>m'. scanPending (match 2 noContext) []
               [Keyword ''inset'', Repeat 2 4 False (BasicType ''length'' None),
                BasicType ''percentage'' None]
               (newMatcher [len2px, len2px, pct5])
          = Inr (Some [Keyword ''inset'', BasicType ''percentage'' None], m')
        \<and> result m' = [len2px, len2px] \<and> upcoming m' = [pct5])"
proof -
  let ?P = insetLengthsPercentage
  let ?len = "BasicType ''length'' None"
  let ?rep = "Repeat 2 4 False ?len"
  let ?k = "Suc (Suc 0)"
  have h1: "distinct ?P" by (simp add: insetLengthsPercentage_def)
  have h2: "\<forall>(t, v)\<in>set ?P. v \<noteq> []" by (simp add: insetLengthsPercentage_def)
  have ok: "toks = [] \<or> (\<not> accepts ?len (hd toks) \<and> Type (hd toks) \<noteq> FunctionToken)"
    if "toks = [num3] \<or> (\<exists>us. toks = kwInset # us) \<or> (\<exists>us. toks = pct5 # us)" for toks
    using that by (auto simp: example_defs num3_def)
  have t1: "takes ?k noContext (Keyword ''inset'') [kwInset] toks" for toks
    by (rule takes_singleToken) (simp_all add: kwInset_def)
  have t3: "takes ?k noContext (BasicType ''percentage'' None) [pct5] toks" for toks
    by (rule takes_singleToken) (simp_all add: pct5_def)
  have t2: "takes ?k noContext ?rep [len2px, len2px] toks"
    if "toks = [num3] \<or> (\<exists>us. toks = kwInset # us) \<or> (\<exists>us. toks = pct5 # us)" for toks
    by (rule takes_Repeat [OF _ _ ok [OF that]]) (simp_all add: len2px_def)
  have r2: "refuses ?k noContext ?rep (v # toks)" if "v = kwInset \<or> v = pct5" for v toks
    using refuses_Repeat [of ?len "[]" "v # toks" 2 0 noContext 4] that
    by (auto simp: example_defs)
  have r1: "refuses ?k noContext (Keyword ''inset'') (v # toks)"
    if "v = len2px \<or> v = pct5" for v toks
    using that by (intro refuses_singleToken) (auto simp: example_defs)
  have r3: "refuses ?k noContext (BasicType ''percentage'' None) (v # toks)"
    if "v = len2px \<or> v = kwInset" for v toks
    using that by (intro refuses_singleToken) (auto simp: example_defs)
  have h3: "\<forall>x\<in>set ?P. \<forall>toks. follows ?P x [num3] toks \<longrightarrow>
           takes ?k noContext (fst x) (snd x) toks
           \<and> (\<forall>y\<in>set ?P. y \<noteq> x \<longrightarrow> refuses ?k noContext (fst y) (snd x @ toks))"
    unfolding insetLengthsPercentage_def follows_def
    by (auto intro!: t1 t2 t3 r1 r2 r3)
  have st: "stream (r @ [space, num3]) = r @ [num3]"
    if "set r \<subseteq> {kwInset, len2px, pct5}" for r
    using that by (induction r) (auto simp: stream_def example_defs num3_def)
  note inst = allOf_commutativity [OF h1 h2 h3, where mt = "match 2 noContext" and pending = "[Keyword ''inset'', ?rep]" and ?m1.0 = "newMatcher []"
      and ?m2.0 = "newMatcher [pct5]" and u = pct5 and ts = "[]"
      and ?m3.0 = "newMatcher [len2px, len2px, pct5]" and w = "[len2px, len2px]"
      and ts' = "[pct5]" and t = "?rep" and skipped = "[Keyword ''inset'']"
      and later = "[BasicType ''percentage'' None]"]
  have main: "\<exists>m'. match 3 noContext (AllOf (map fst ?P))
            (newMatcher (concat vs @ [space, num3])) = Inr (True, m')
        \<and> result m' = concat vs \<and> upcoming m' = [num3]
        \<and> Match 3 noContext (AllOf (map fst ?P)) (concat vs @ [space, num3])
            = Inr (captures m' @ [\<lparr>Name = [], Values = concat vs\<rparr>])"
    if p: "mset vs = mset (map snd ?P)" for vs
  proof -
    from p have "set vs = set (map snd ?P)" by (metis set_mset_mset)
    then have "set (concat vs) \<subseteq> {kwInset, len2px, pct5}"
      by (auto simp: insetLengthsPercentage_def)
    from st [OF this] have s: "stream (concat vs @ [space, num3]) = concat vs @ [num3]" .
    from inst [OF p s, THEN conjunct1] show ?thesis by (simp add: eval_nat_numeral)
  qed
  have c: "consistent (newMatcher r)" for r by (rule newMatcher_consistent)
  have u: "upcoming (newMatcher r) = stream r" for r by (rule newMatcher_upcoming)
  have s1: "stream [pct5] = [pct5]" "stream [len2px, len2px, pct5] = [len2px, len2px, pct5]"
    "stream [] = []"
    by (simp_all add: stream_def example_defs)
  have ms0: "mset [[kwInset], [len2px, len2px], [pct5]] = mset (map snd ?P)"
    by (simp add: insetLengthsPercentage_def)
  have st0: "stream ([kwInset, len2px, len2px, pct5] @ [space, num3])
      = concat [[kwInset], [len2px, len2px], [pct5]] @ [num3]"
    using st [of "[kwInset, len2px, len2px, pct5]"] by simp
  note rest = inst [OF ms0 st0, THEN conjunct2, THEN conjunct2]
  have ev1: "Match 3 noContext (AllOf (map fst ?P)) [kwInset, len2px, len2px, pct5, space, num3]
      = Inr [\<lparr>Name = [], Values = [kwInset, len2px, len2px, pct5]\<rparr>]"
    by code_simp
  have ev2: "Match 3 noContext (AllOf (map fst ?P)) [kwInset, pct5, len2px, len2px, space, num3]
      = Inr [\<lparr>Name = [], Values = [kwInset, pct5, len2px, len2px]\<rparr>]"
    by code_simp
  have ev3: "Match 3 noContext (AllOf (map fst ?P)) [len2px, len2px, kwInset, pct5, space, num3]
      = Inr [\<lparr>Name = [], Values = [len2px, len2px, kwInset, pct5]\<rparr>]"
    by code_simp
  have ev4: "Match 3 noContext (AllOf (map fst ?P)) [len2px, len2px, pct5, kwInset, space, num3]
      = Inr [\<lparr>Name = [], Values = [len2px, len2px, pct5, kwInset]\<rparr>]"
    by code_simp
  have ev5: "Match 3 noContext (AllOf (map fst ?P)) [pct5, kwInset, len2px, len2px, space, num3]
      = Inr [\<lparr>Name = [], Values = [pct5, kwInset, len2px, len2px]\<rparr>]"
    by code_simp
  have ev6: "Match 3 noContext (AllOf (map fst ?P)) [pct5, len2px, len2px, kwInset, space, num3]
      = Inr [\<lparr>Name = [], Values = [pct5, len2px, len2px, kwInset]\<rparr>]"
    by code_simp
  have l3: "\<exists>m'. matchAllOf (match 2 noContext) [Keyword ''inset'', ?rep] (newMatcher [])
      = Inr (False, m')"
    using rest [THEN conjunct1] c u s1 by simp
  have l4: "\<exists>m'. matchAllOf (match 2 noContext) [Keyword ''inset'', ?rep] (newMatcher [pct5])
      = Inr (False, m')"
    using rest [THEN conjunct2, THEN conjunct1] c u s1 r1 [of pct5 "[]"] r2 [of pct5 "[]"]
    by (simp add: eval_nat_numeral pct5_def)
  have l5: "\<exists>m'. scanPending (match 2 noContext) []
               [Keyword ''inset'', ?rep, BasicType ''percentage'' None]
               (newMatcher [len2px, len2px, pct5])
          = Inr (Some [Keyword ''inset'', BasicType ''percentage'' None], m')
        \<and> result m' = [len2px, len2px] \<and> upcoming m' = [pct5]"
    using rest [THEN conjunct2, THEN conjunct2] c u s1 r1 [of len2px "[len2px, pct5]"]
      t2 [of "[pct5]"]
    by (simp add: eval_nat_numeral newMatcher_def)
  have ms1: "mset [[kwInset], [len2px, len2px], [pct5]] = mset (map snd ?P)"
    by (simp add: insetLengthsPercentage_def)
  have ms2: "mset [[kwInset], [pct5], [len2px, len2px]] = mset (map snd ?P)"
    by (simp add: insetLengthsPercentage_def)
  have ms3: "mset [[len2px, len2px], [kwInset], [pct5]] = mset (map snd ?P)"
    by (simp add: insetLengthsPercentage_def)
  have ms4: "mset [[len2px, len2px], [pct5], [kwInset]] = mset (map snd ?P)"
    by (simp add: insetLengthsPercentage_def)
  have ms5: "mset [[pct5], [kwInset], [len2px, len2px]] = mset (map snd ?P)"
    by (simp add: insetLengthsPercentage_def)
  have ms6: "mset [[pct5], [len2px, len2px], [kwInset]] = mset (map snd ?P)"
    by (simp add: insetLengthsPercentage_def)
  from main [OF ms1] ev1
    main [OF ms2] ev2
    main [OF ms3] ev3
    main [OF ms4] ev4
    main [OF ms5] ev5
    main [OF ms6] ev6 l3 l4 l5
  show ?thesis by simp
qed

theorem allOf_optional_operand:
  "(\<forall>pf. ParseGrammar pf 40 ''inset? && <length>{2,4} && <percentage>''
      = Inr (AllOf [ZeroOrOne (Keyword ''inset''),
                    Repeat 2 4 False (BasicType ''length'' None),
                    BasicType ''percentage'' None]))
   \<and> Match 4 noContext (ZeroOrOne (Keyword ''inset'')) [kwInset]
       = Inr [\<lparr>Name = [], Values = [kwInset]\<rparr>]
   \<and> Match 4 noContext (Repeat 2 4 False (BasicType ''length'' None)) [len2px, space, len2px]
       = Inr [\<lparr>Name = [], Values = [len2px, len2px]\<rparr>]
   \<and> Match 4 noContext (BasicType ''percentage'' None) [pct5]
       = Inr [\<lparr>Name = [], Values = [pct5]\<rparr>]
   \<and> Match 4 noContext
         (AllOf [ZeroOrOne (Keyword ''inset''), Repeat 2 4 False (BasicType ''length'' None),
                 BasicType ''percentage'' None])
         [kwInset, space, len2px, space, len2px, space, pct5]
       = Inr [\<lparr>Name = [], Values = [kwInset, len2px, len2px, pct5]\<rparr>]
   \<and> Match 4 noContext
         (AllOf [ZeroOrOne (Keyword ''inset''), Repeat 2 4 False (BasicType ''length'' None),
                 BasicType ''percentage'' None])
         [pct5, space, kwInset, space, len2px, space, len2px]
       = Inr []"
proof -
  have p: "ParseGrammar pf 40 ''inset? && <length>{2,4} && <percentage>''
      = Inr (AllOf [ZeroOrOne (Keyword ''inset''),
                    Repeat 2 4 False (BasicType ''length'' None),
                    BasicType ''percentage'' None])" for pf
    by code_simp
  have 1: "Match 4 noContext (ZeroOrOne (Keyword ''inset'')) [kwInset]
       = Inr [\<lparr>Name = [], Values = [kwInset]\<rparr>]"
    by code_simp
  have 2: "Match 4 noContext (Repeat 2 4 False (BasicType ''length'' None))
         [len2px, space, len2px]
       = Inr [\<lparr>Name = [], Values = [len2px, len2px]\<rparr>]"
    by code_simp
  have 3: "Match 4 noContext (BasicType ''percentage'' None) [pct5]
       = Inr [\<lparr>Name = [], Values = [pct5]\<rparr>]"
    by code_simp
  have 4: "Match 4 noContext
         (AllOf [ZeroOrOne (Keyword ''inset''), Repeat 2 4 False (BasicType ''length'' None),
                 BasicType ''percentage'' None])
         [kwInset, space, len2px, space, len2px, space, pct5]
       = Inr [\<lparr>Name = [], Values = [kwInset, len2px, len2px, pct5]\<rparr>]"
    by code_simp
  have 5: "Match 4 noContext
         (AllOf [ZeroOrOne (Keyword ''inset''), Repeat 2 4 False (BasicType ''length'' None),
                 BasicType ''percentage'' None])
         [pct5, space, kwInset, space, len2px, space, len2px]
       = Inr []"
    by code_simp
  from p 1 2 3 4 5 show ?thesis by blast
qed


text \<open>
  C6. Repeat boundaries. The number of completed repetitions alone does not decide the
  outcome of a repeat with commas: after a completed repetition, below \<open>max\<close>, a next
  token that is not a comma makes the repeat fail, whatever the count (one number
  matches \<^verbatim>\<open><number>#{1,4}\<close>, two numbers without a comma do not). What holds is this.
  Let the stream hold the values \<open>vs\<close>, each taken by the operand whatever follows it,
  with commas between them when the repeat has commas, and then \<open>rest\<close>. If \<open>max\<close> is
  reached, or the stream ends there, or (without commas, or with no value at all) the
  operand refuses \<open>rest\<close>, the repeat completes \<open>min (length vs) max\<close> repetitions,
  consumes exactly these values with the commas between them and succeeds exactly when
  that count is at least \<open>min\<close>; the repetition after the \<open>max\<close>-th is not consumed. If
  the repeat has commas, fewer than \<open>max\<close> values are there, and \<open>rest\<close> starts with a
  token that is not a comma, the repeat fails. For any operand, the count with which the
  loop is left is at most \<open>max\<close> and decides the outcome when no comma is missing; at a
  count of \<open>max\<close> the loop ends with the state untouched; with commas set, before every
  repetition after the first, a token other than a comma ends the loop with failure,
  and a comma is consumed before the operand is tried.
\<close>

theorem repeat_boundaries:
  assumes "\<forall>v\<in>set vs. v \<noteq> [] \<and> (\<forall>toks. takes k ctx operand v toks)"
    and "commas \<longrightarrow> Type c = CommaToken"
    and "stream r = repetitions commas c vs @ rest"
    and "mx \<le> int (length vs) \<or> rest = []
         \<or> (if commas \<and> vs \<noteq> [] then Type (hd rest) \<noteq> CommaToken
             else refuses k ctx operand rest)"
  shows "(\<exists>m'. match (Suc k) ctx (Repeat mn mx commas operand) (newMatcher r)
              = Inr (\<not> (commas \<and> vs \<noteq> [] \<and> int (length vs) < mx \<and> rest \<noteq> [])
                       \<and> mn \<le> int (min (length vs) (nat mx)), m')
          \<and> Match (Suc k) ctx (Repeat mn mx commas operand) r
              = Inr (if \<not> (commas \<and> vs \<noteq> [] \<and> int (length vs) < mx \<and> rest \<noteq> [])
                         \<and> mn \<le> int (min (length vs) (nat mx))
                     then captures m'
                       @ [\<lparr>Name = [], Values = repetitions commas c (take (nat mx) vs)\<rparr>]
                     else []))
    \<and> (matchRepeat mt mn' mx' commas' op m = Inr (b, m') \<longrightarrow>
          (\<exists>j. repeatLoop mt mx' commas' op 0 m = Inr (Some j, m')
               \<and> int j \<le> max 0 mx' \<and> b = (mn' \<le> int j))
          \<or> (commas' \<and> repeatLoop mt mx' commas' op 0 m = Inr (None, m') \<and> b = False))
    \<and> (\<not> int n0 < mx' \<longrightarrow> repeatLoop mt mx' commas' op n0 m0 = Inr (Some n0, m0))
    \<and> (int n1 < mx' \<and> 0 < n1 \<and> peek 1 ma = Inr (nx, ma1) \<and> Type nx \<noteq> ErrorToken
          \<and> Type nx \<noteq> CommaToken \<longrightarrow>
          repeatLoop mt mx' True op n1 ma = Inr (None, ma1))
    \<and> (int n2 < mx' \<and> 0 < n2 \<and> consistent mb \<and> upcoming mb = c' # ts
          \<and> Type c' = CommaToken \<longrightarrow>
          (\<exists>mb2. consistent mb2 \<and> upcoming mb2 = ts \<and> result mb2 = result mb @ [c']
             \<and> repeatLoop mt mx' True op n2 mb =
                 (case mt op mb2 of
                    Inl e \<Rightarrow> Inl e
                  | Inr (matched, mb3) \<Rightarrow>
                      if \<not> matched then Inr (Some n2, mb3)
                      else repeatLoop mt mx' True op (n2 + 1) mb3)))"
proof -
  let ?missing = "commas \<and> vs \<noteq> [] \<and> int (length vs) < mx \<and> rest \<noteq> []"
  let ?j = "min (length vs) (nat mx)"
  have c: "consistent (newMatcher r)" by (rule newMatcher_consistent)
  have u: "upcoming (newMatcher r) = repetitions commas c vs @ rest"
    using assms(3) by (simp add: newMatcher_upcoming)
  have ne: "\<forall>t\<in>set (concat vs @ rest). Type t \<noteq> ErrorToken"
  proof
    fix t
    assume "t \<in> set (concat vs @ rest)"
    with separated_tokens [of vs commas c] assms(3) have "t \<in> set (stream r)" by auto
    then show "Type t \<noteq> ErrorToken" by (rule stream_no_error)
  qed
  from repeatLoop_repetitions [OF assms(1,2) ne assms(4) c u] obtain m1 where
    l: "repeatLoop (match k ctx) mx commas operand 0 (newMatcher r)
          = Inr (if ?missing then None else Some ?j, m1)"
    and r1: "result m1 = result (newMatcher r) @ repetitions commas c (take (nat mx) vs)"
    by blast
  from r1 have r1': "result m1 = repetitions commas c (take (nat mx) vs)"
    by (simp add: newMatcher_def)
  have "\<exists>m'. match (Suc k) ctx (Repeat mn mx commas operand) (newMatcher r)
              = Inr (\<not> ?missing \<and> mn \<le> int ?j, m')
          \<and> (\<not> ?missing \<and> mn \<le> int ?j \<longrightarrow> m' = m1)"
    using l by (auto simp: match_Repeat)
  then obtain mr where
    m: "match (Suc k) ctx (Repeat mn mx commas operand) (newMatcher r)
              = Inr (\<not> ?missing \<and> mn \<le> int ?j, mr)"
    and e: "\<not> ?missing \<and> mn \<le> int ?j \<longrightarrow> mr = m1"
    by blast
  from m e r1' have "Match (Suc k) ctx (Repeat mn mx commas operand) r
              = Inr (if \<not> ?missing \<and> mn \<le> int ?j
                     then captures mr
                       @ [\<lparr>Name = [], Values = repetitions commas c (take (nat mx) vs)\<rparr>]
                     else [])"
    by (auto simp: Match_def)
  with m have 1: "\<exists>mr. match (Suc k) ctx (Repeat mn mx commas operand) (newMatcher r)
              = Inr (\<not> ?missing \<and> mn \<le> int ?j, mr)
          \<and> Match (Suc k) ctx (Repeat mn mx commas operand) r
              = Inr (if \<not> ?missing \<and> mn \<le> int ?j
                     then captures mr
                       @ [\<lparr>Name = [], Values = repetitions commas c (take (nat mx) vs)\<rparr>]
                     else [])"
    by blast
  have 2: "(\<exists>j. repeatLoop mt mx' commas' op 0 m = Inr (Some j, m')
               \<and> int j \<le> max 0 mx' \<and> b = (mn' \<le> int j))
          \<or> (commas' \<and> repeatLoop mt mx' commas' op 0 m = Inr (None, m') \<and> b = False)"
    if "matchRepeat mt mn' mx' commas' op m = Inr (b, m')"
    using that by (rule matchRepeat_cases)
  have 3: "repeatLoop mt mx' commas' op n0 m0 = Inr (Some n0, m0)" if "\<not> int n0 < mx'"
    using that by (rule repeatLoop_limit)
  have 4: "repeatLoop mt mx' True op n1 ma = Inr (None, ma1)"
    if "int n1 < mx' \<and> 0 < n1 \<and> peek 1 ma = Inr (nx, ma1) \<and> Type nx \<noteq> ErrorToken
          \<and> Type nx \<noteq> CommaToken"
    using that by (simp add: repeatLoop_no_comma)
  have 5: "\<exists>mb2. consistent mb2 \<and> upcoming mb2 = ts \<and> result mb2 = result mb @ [c']
             \<and> repeatLoop mt mx' True op n2 mb =
                 (case mt op mb2 of
                    Inl e \<Rightarrow> Inl e
                  | Inr (matched, mb3) \<Rightarrow>
                      if \<not> matched then Inr (Some n2, mb3)
                      else repeatLoop mt mx' True op (n2 + 1) mb3)"
    if a: "int n2 < mx' \<and> 0 < n2 \<and> consistent mb \<and> upcoming mb = c' # ts
          \<and> Type c' = CommaToken"
  proof -
    from a have "offset mb \<le> length (buffer mb)" by (simp add: consistent_def)
    from peek_upcoming [OF this] a obtain m1 where p: "peek 1 mb = Inr (c', m1)"
      and f: "result m1 = result mb" "upcoming m1 = c' # ts" "offset m1 < length (buffer m1)"
      by blast
    from a peek_consistent [OF _ p] have c1: "consistent m1" by blast
    from chomp_upcoming [OF c1 f(2,3)] obtain m2 where ch: "chomp m1 = Inr m2"
      and c2: "consistent m2" and f2: "upcoming m2 = ts" "result m2 = result m1 @ [c']"
      by blast
    from a have "int n2 < mx'" "0 < n2" "Type c' = CommaToken" by simp_all
    from repeatLoop_comma [OF this(1) p this(2) _ this(3) ch, of True mt op] c2 f2 f
    show ?thesis by auto
  qed
  show ?thesis
    apply (intro conjI)
        apply (rule 1)
       apply (rule impI, erule 2)
      apply (rule impI, erule 3)
     apply (rule impI, erule 4)
    apply (rule impI, erule 5)
    done
qed

theorem repeat_boundaries_witness:
  "(\<exists>m'. match 2 noContext (Repeat 2 4 False (BasicType ''number'' None)) (newMatcher [num1]) = Inr (False, m')
        \<and> Match 2 noContext (Repeat 2 4 False (BasicType ''number'' None)) [num1] = Inr [])
   \<and> (\<exists>m'. match 2 noContext (Repeat 2 4 False (BasicType ''number'' None)) (newMatcher [num1, space, num2]) = Inr (True, m')
        \<and> Match 2 noContext (Repeat 2 4 False (BasicType ''number'' None)) [num1, space, num2]
            = Inr (captures m' @ [\<lparr>Name = [], Values = [num1, num2]\<rparr>]))
   \<and> Match 2 noContext (Repeat 2 4 False (BasicType ''number'' None)) [num1, space, num2] = Inr [\<lparr>Name = [], Values = [num1, num2]\<rparr>]
   \<and> (\<exists>m'. match 2 noContext (Repeat 2 4 False (BasicType ''number'' None)) (newMatcher [num1, num2, num3]) = Inr (True, m')
        \<and> Match 2 noContext (Repeat 2 4 False (BasicType ''number'' None)) [num1, num2, num3]
            = Inr (captures m' @ [\<lparr>Name = [], Values = [num1, num2, num3]\<rparr>]))
   \<and> Match 2 noContext (Repeat 2 4 False (BasicType ''number'' None)) [num1, num2, num3] = Inr [\<lparr>Name = [], Values = [num1, num2, num3]\<rparr>]
   \<and> (\<exists>m'. match 2 noContext (Repeat 2 4 False (BasicType ''number'' None)) (newMatcher [num1, num2, num3, num4]) = Inr (True, m')
        \<and> Match 2 noContext (Repeat 2 4 False (BasicType ''number'' None)) [num1, num2, num3, num4]
            = Inr (captures m' @ [\<lparr>Name = [], Values = [num1, num2, num3, num4]\<rparr>]))
   \<and> Match 2 noContext (Repeat 2 4 False (BasicType ''number'' None)) [num1, num2, num3, num4] = Inr [\<lparr>Name = [], Values = [num1, num2, num3, num4]\<rparr>]
   \<and> (\<exists>m'. match 2 noContext (Repeat 2 4 False (BasicType ''number'' None)) (newMatcher [num1, num2, num3, num4, num5]) = Inr (True, m')
        \<and> Match 2 noContext (Repeat 2 4 False (BasicType ''number'' None)) [num1, num2, num3, num4, num5]
            = Inr (captures m' @ [\<lparr>Name = [], Values = [num1, num2, num3, num4]\<rparr>]))
   \<and> Match 2 noContext (Repeat 2 4 False (BasicType ''number'' None)) [num1, num2, num3, num4, num5] = Inr [\<lparr>Name = [], Values = [num1, num2, num3, num4]\<rparr>]
   \<and> (\<exists>m'. match 2 noContext (Repeat 2 4 True (BasicType ''number'' None)) (newMatcher [num1]) = Inr (False, m')
        \<and> Match 2 noContext (Repeat 2 4 True (BasicType ''number'' None)) [num1] = Inr [])
   \<and> (\<exists>m'. match 2 noContext (Repeat 2 4 True (BasicType ''number'' None)) (newMatcher [num1, comma, space, num2]) = Inr (True, m')
        \<and> Match 2 noContext (Repeat 2 4 True (BasicType ''number'' None)) [num1, comma, space, num2]
            = Inr (captures m' @ [\<lparr>Name = [], Values = [num1, comma, num2]\<rparr>]))
   \<and> Match 2 noContext (Repeat 2 4 True (BasicType ''number'' None)) [num1, comma, space, num2] = Inr [\<lparr>Name = [], Values = [num1, comma, num2]\<rparr>]
   \<and> (\<exists>m'. match 2 noContext (Repeat 2 4 True (BasicType ''number'' None)) (newMatcher [num1, comma, num2, comma, num3, comma, num4, comma, num5]) = Inr (True, m')
        \<and> Match 2 noContext (Repeat 2 4 True (BasicType ''number'' None)) [num1, comma, num2, comma, num3, comma, num4, comma, num5]
            = Inr (captures m' @ [\<lparr>Name = [], Values = [num1, comma, num2, comma, num3, comma, num4]\<rparr>]))
   \<and> Match 2 noContext (Repeat 2 4 True (BasicType ''number'' None)) [num1, comma, num2, comma, num3, comma, num4, comma, num5] = Inr [\<lparr>Name = [], Values = [num1, comma, num2, comma, num3, comma, num4]\<rparr>]
   \<and> (\<exists>m'. match 2 noContext (Repeat 1 4 True (BasicType ''number'' None)) (newMatcher [num1, space, num2]) = Inr (False, m')
        \<and> Match 2 noContext (Repeat 1 4 True (BasicType ''number'' None)) [num1, space, num2] = Inr [])
   \<and> (\<exists>m'. match 2 noContext (Repeat 1 4 True (BasicType ''number'' None)) (newMatcher [num1, comma, num2, space, num3]) = Inr (False, m')
        \<and> Match 2 noContext (Repeat 1 4 True (BasicType ''number'' None)) [num1, comma, num2, space, num3] = Inr [])
   \<and> (\<exists>j. repeatLoop (match 1 noContext) 4 True (BasicType ''number'' None) 0
              (newMatcher [num1, comma, num2])
            = Inr (Some j, \<lparr>buffer = [num1, comma, num2], offset = 3, lexer = [],
                result = [num1, comma, num2], captures = []\<rparr>)
          \<and> int j \<le> max 0 4 \<and> True = (2 \<le> int j))
   \<and> repeatLoop (match 1 noContext) 4 True (BasicType ''number'' None) 4 (newMatcher [num5])
       = Inr (Some 4, newMatcher [num5])
   \<and> repeatLoop (match 1 noContext) 4 True (BasicType ''number'' None) 1
         \<lparr>buffer = [num1], offset = 1, lexer = [num2], result = [num1], captures = []\<rparr>
       = Inr (None, \<lparr>buffer = [num1, num2], offset = 1, lexer = [], result = [num1],
            captures = []\<rparr>)
   \<and> (\<exists>mb2. consistent mb2 \<and> upcoming mb2 = [num2] \<and> result mb2 = [num1, comma]
         \<and> repeatLoop (match 1 noContext) 4 True (BasicType ''number'' None) 1
               \<lparr>buffer = [num1], offset = 1, lexer = [comma, num2], result = [num1],
                captures = []\<rparr>
             = (case match 1 noContext (BasicType ''number'' None) mb2 of
                  Inl e \<Rightarrow> Inl e
                | Inr (matched, mb3) \<Rightarrow>
                    if \<not> matched then Inr (Some 1, mb3)
                    else repeatLoop (match 1 noContext) 4 True (BasicType ''number'' None)
                           (1 + 1) mb3))"
proof -
  have h1: "\<forall>v\<in>set vs. v \<noteq> [] \<and> (\<forall>toks. takes (Suc 0) noContext (BasicType ''number'' None) v toks)"
    if "set vs \<subseteq> {[num1], [num2], [num3], [num4], [num5]}" for vs
    using that by (auto intro!: takes_singleToken simp: number_defs)
  have h2: "commas \<longrightarrow> Type comma = CommaToken" for commas by (simp add: comma_def)
  have s0: "stream [num1] = repetitions False comma [[num1]] @ []"
    by (simp add: stream_def repetitions_def number_defs space_def)
  have g0: "4 \<le> int (length [[num1]]) \<or> [] = []
         \<or> (if False \<and> [[num1]] \<noteq> [] then Type (hd []) \<noteq> CommaToken
             else refuses (Suc 0) noContext (BasicType ''number'' None) [])"
    by (simp add: number_defs)
  have v0: "\<forall>v\<in>set [[num1]]. v \<noteq> []
      \<and> (\<forall>toks. takes (Suc 0) noContext (BasicType ''number'' None) v toks)"
    by (rule h1) simp
  have w0: "(\<exists>m'. match 2 noContext (Repeat 2 4 False (BasicType ''number'' None)) (newMatcher [num1]) = Inr (False, m')
        \<and> Match 2 noContext (Repeat 2 4 False (BasicType ''number'' None)) [num1] = Inr [])"
    using repeat_boundaries [OF v0 h2 s0 g0, THEN conjunct1, of 2]
    by (simp add: repetitions_def eval_nat_numeral)
  have s1: "stream [num1, space, num2] = repetitions False comma [[num1], [num2]] @ []"
    by (simp add: stream_def repetitions_def number_defs space_def)
  have g1: "4 \<le> int (length [[num1], [num2]]) \<or> [] = []
         \<or> (if False \<and> [[num1], [num2]] \<noteq> [] then Type (hd []) \<noteq> CommaToken
             else refuses (Suc 0) noContext (BasicType ''number'' None) [])"
    by (simp add: number_defs)
  have v1: "\<forall>v\<in>set [[num1], [num2]]. v \<noteq> []
      \<and> (\<forall>toks. takes (Suc 0) noContext (BasicType ''number'' None) v toks)"
    by (rule h1) simp
  have w1: "(\<exists>m'. match 2 noContext (Repeat 2 4 False (BasicType ''number'' None)) (newMatcher [num1, space, num2]) = Inr (True, m')
        \<and> Match 2 noContext (Repeat 2 4 False (BasicType ''number'' None)) [num1, space, num2]
            = Inr (captures m' @ [\<lparr>Name = [], Values = [num1, num2]\<rparr>]))"
    using repeat_boundaries [OF v1 h2 s1 g1, THEN conjunct1, of 2]
    by (simp add: repetitions_def eval_nat_numeral)
  have e1: "Match 2 noContext (Repeat 2 4 False (BasicType ''number'' None)) [num1, space, num2] = Inr [\<lparr>Name = [], Values = [num1, num2]\<rparr>]"
    by code_simp
  have s2: "stream [num1, num2, num3] = repetitions False comma [[num1], [num2], [num3]] @ []"
    by (simp add: stream_def repetitions_def number_defs space_def)
  have g2: "4 \<le> int (length [[num1], [num2], [num3]]) \<or> [] = []
         \<or> (if False \<and> [[num1], [num2], [num3]] \<noteq> [] then Type (hd []) \<noteq> CommaToken
             else refuses (Suc 0) noContext (BasicType ''number'' None) [])"
    by (simp add: number_defs)
  have v2: "\<forall>v\<in>set [[num1], [num2], [num3]]. v \<noteq> []
      \<and> (\<forall>toks. takes (Suc 0) noContext (BasicType ''number'' None) v toks)"
    by (rule h1) simp
  have w2: "(\<exists>m'. match 2 noContext (Repeat 2 4 False (BasicType ''number'' None)) (newMatcher [num1, num2, num3]) = Inr (True, m')
        \<and> Match 2 noContext (Repeat 2 4 False (BasicType ''number'' None)) [num1, num2, num3]
            = Inr (captures m' @ [\<lparr>Name = [], Values = [num1, num2, num3]\<rparr>]))"
    using repeat_boundaries [OF v2 h2 s2 g2, THEN conjunct1, of 2]
    by (simp add: repetitions_def eval_nat_numeral)
  have e2: "Match 2 noContext (Repeat 2 4 False (BasicType ''number'' None)) [num1, num2, num3] = Inr [\<lparr>Name = [], Values = [num1, num2, num3]\<rparr>]"
    by code_simp
  have s3: "stream [num1, num2, num3, num4] = repetitions False comma [[num1], [num2], [num3], [num4]] @ []"
    by (simp add: stream_def repetitions_def number_defs space_def)
  have g3: "4 \<le> int (length [[num1], [num2], [num3], [num4]]) \<or> [] = []
         \<or> (if False \<and> [[num1], [num2], [num3], [num4]] \<noteq> [] then Type (hd []) \<noteq> CommaToken
             else refuses (Suc 0) noContext (BasicType ''number'' None) [])"
    by (simp add: number_defs)
  have v3: "\<forall>v\<in>set [[num1], [num2], [num3], [num4]]. v \<noteq> []
      \<and> (\<forall>toks. takes (Suc 0) noContext (BasicType ''number'' None) v toks)"
    by (rule h1) simp
  have w3: "(\<exists>m'. match 2 noContext (Repeat 2 4 False (BasicType ''number'' None)) (newMatcher [num1, num2, num3, num4]) = Inr (True, m')
        \<and> Match 2 noContext (Repeat 2 4 False (BasicType ''number'' None)) [num1, num2, num3, num4]
            = Inr (captures m' @ [\<lparr>Name = [], Values = [num1, num2, num3, num4]\<rparr>]))"
    using repeat_boundaries [OF v3 h2 s3 g3, THEN conjunct1, of 2]
    by (simp add: repetitions_def eval_nat_numeral)
  have e3: "Match 2 noContext (Repeat 2 4 False (BasicType ''number'' None)) [num1, num2, num3, num4] = Inr [\<lparr>Name = [], Values = [num1, num2, num3, num4]\<rparr>]"
    by code_simp
  have s4: "stream [num1, num2, num3, num4, num5] = repetitions False comma [[num1], [num2], [num3], [num4], [num5]] @ []"
    by (simp add: stream_def repetitions_def number_defs space_def)
  have g4: "4 \<le> int (length [[num1], [num2], [num3], [num4], [num5]]) \<or> [] = []
         \<or> (if False \<and> [[num1], [num2], [num3], [num4], [num5]] \<noteq> [] then Type (hd []) \<noteq> CommaToken
             else refuses (Suc 0) noContext (BasicType ''number'' None) [])"
    by (simp add: number_defs)
  have v4: "\<forall>v\<in>set [[num1], [num2], [num3], [num4], [num5]]. v \<noteq> []
      \<and> (\<forall>toks. takes (Suc 0) noContext (BasicType ''number'' None) v toks)"
    by (rule h1) simp
  have w4: "(\<exists>m'. match 2 noContext (Repeat 2 4 False (BasicType ''number'' None)) (newMatcher [num1, num2, num3, num4, num5]) = Inr (True, m')
        \<and> Match 2 noContext (Repeat 2 4 False (BasicType ''number'' None)) [num1, num2, num3, num4, num5]
            = Inr (captures m' @ [\<lparr>Name = [], Values = [num1, num2, num3, num4]\<rparr>]))"
    using repeat_boundaries [OF v4 h2 s4 g4, THEN conjunct1, of 2]
    by (simp add: repetitions_def eval_nat_numeral)
  have e4: "Match 2 noContext (Repeat 2 4 False (BasicType ''number'' None)) [num1, num2, num3, num4, num5] = Inr [\<lparr>Name = [], Values = [num1, num2, num3, num4]\<rparr>]"
    by code_simp
  have s5: "stream [num1] = repetitions True comma [[num1]] @ []"
    by (simp add: stream_def repetitions_def number_defs space_def)
  have g5: "4 \<le> int (length [[num1]]) \<or> [] = []
         \<or> (if True \<and> [[num1]] \<noteq> [] then Type (hd []) \<noteq> CommaToken
             else refuses (Suc 0) noContext (BasicType ''number'' None) [])"
    by (simp add: number_defs)
  have v5: "\<forall>v\<in>set [[num1]]. v \<noteq> []
      \<and> (\<forall>toks. takes (Suc 0) noContext (BasicType ''number'' None) v toks)"
    by (rule h1) simp
  have w5: "(\<exists>m'. match 2 noContext (Repeat 2 4 True (BasicType ''number'' None)) (newMatcher [num1]) = Inr (False, m')
        \<and> Match 2 noContext (Repeat 2 4 True (BasicType ''number'' None)) [num1] = Inr [])"
    using repeat_boundaries [OF v5 h2 s5 g5, THEN conjunct1, of 2]
    by (simp add: repetitions_def eval_nat_numeral)
  have s6: "stream [num1, comma, space, num2] = repetitions True comma [[num1], [num2]] @ []"
    by (simp add: stream_def repetitions_def number_defs space_def)
  have g6: "4 \<le> int (length [[num1], [num2]]) \<or> [] = []
         \<or> (if True \<and> [[num1], [num2]] \<noteq> [] then Type (hd []) \<noteq> CommaToken
             else refuses (Suc 0) noContext (BasicType ''number'' None) [])"
    by (simp add: number_defs)
  have v6: "\<forall>v\<in>set [[num1], [num2]]. v \<noteq> []
      \<and> (\<forall>toks. takes (Suc 0) noContext (BasicType ''number'' None) v toks)"
    by (rule h1) simp
  have w6: "(\<exists>m'. match 2 noContext (Repeat 2 4 True (BasicType ''number'' None)) (newMatcher [num1, comma, space, num2]) = Inr (True, m')
        \<and> Match 2 noContext (Repeat 2 4 True (BasicType ''number'' None)) [num1, comma, space, num2]
            = Inr (captures m' @ [\<lparr>Name = [], Values = [num1, comma, num2]\<rparr>]))"
    using repeat_boundaries [OF v6 h2 s6 g6, THEN conjunct1, of 2]
    by (simp add: repetitions_def eval_nat_numeral)
  have e6: "Match 2 noContext (Repeat 2 4 True (BasicType ''number'' None)) [num1, comma, space, num2] = Inr [\<lparr>Name = [], Values = [num1, comma, num2]\<rparr>]"
    by code_simp
  have s7: "stream [num1, comma, num2, comma, num3, comma, num4, comma, num5] = repetitions True comma [[num1], [num2], [num3], [num4], [num5]] @ []"
    by (simp add: stream_def repetitions_def number_defs space_def)
  have g7: "4 \<le> int (length [[num1], [num2], [num3], [num4], [num5]]) \<or> [] = []
         \<or> (if True \<and> [[num1], [num2], [num3], [num4], [num5]] \<noteq> [] then Type (hd []) \<noteq> CommaToken
             else refuses (Suc 0) noContext (BasicType ''number'' None) [])"
    by (simp add: number_defs)
  have v7: "\<forall>v\<in>set [[num1], [num2], [num3], [num4], [num5]]. v \<noteq> []
      \<and> (\<forall>toks. takes (Suc 0) noContext (BasicType ''number'' None) v toks)"
    by (rule h1) simp
  have w7: "(\<exists>m'. match 2 noContext (Repeat 2 4 True (BasicType ''number'' None)) (newMatcher [num1, comma, num2, comma, num3, comma, num4, comma, num5]) = Inr (True, m')
        \<and> Match 2 noContext (Repeat 2 4 True (BasicType ''number'' None)) [num1, comma, num2, comma, num3, comma, num4, comma, num5]
            = Inr (captures m' @ [\<lparr>Name = [], Values = [num1, comma, num2, comma, num3, comma, num4]\<rparr>]))"
    using repeat_boundaries [OF v7 h2 s7 g7, THEN conjunct1, of 2]
    by (simp add: repetitions_def eval_nat_numeral)
  have e7: "Match 2 noContext (Repeat 2 4 True (BasicType ''number'' None)) [num1, comma, num2, comma, num3, comma, num4, comma, num5] = Inr [\<lparr>Name = [], Values = [num1, comma, num2, comma, num3, comma, num4]\<rparr>]"
    by code_simp
  have s8: "stream [num1, space, num2] = repetitions True comma [[num1]] @ [num2]"
    by (simp add: stream_def repetitions_def number_defs space_def)
  have g8: "4 \<le> int (length [[num1]]) \<or> [num2] = []
         \<or> (if True \<and> [[num1]] \<noteq> [] then Type (hd [num2]) \<noteq> CommaToken
             else refuses (Suc 0) noContext (BasicType ''number'' None) [num2])"
    by (simp add: number_defs)
  have v8: "\<forall>v\<in>set [[num1]]. v \<noteq> []
      \<and> (\<forall>toks. takes (Suc 0) noContext (BasicType ''number'' None) v toks)"
    by (rule h1) simp
  have w8: "(\<exists>m'. match 2 noContext (Repeat 1 4 True (BasicType ''number'' None)) (newMatcher [num1, space, num2]) = Inr (False, m')
        \<and> Match 2 noContext (Repeat 1 4 True (BasicType ''number'' None)) [num1, space, num2] = Inr [])"
    using repeat_boundaries [OF v8 h2 s8 g8, THEN conjunct1, of 1]
    by (simp add: repetitions_def eval_nat_numeral)
  have s9: "stream [num1, comma, num2, space, num3] = repetitions True comma [[num1], [num2]] @ [num3]"
    by (simp add: stream_def repetitions_def number_defs space_def)
  have g9: "4 \<le> int (length [[num1], [num2]]) \<or> [num3] = []
         \<or> (if True \<and> [[num1], [num2]] \<noteq> [] then Type (hd [num3]) \<noteq> CommaToken
             else refuses (Suc 0) noContext (BasicType ''number'' None) [num3])"
    by (simp add: number_defs)
  have v9: "\<forall>v\<in>set [[num1], [num2]]. v \<noteq> []
      \<and> (\<forall>toks. takes (Suc 0) noContext (BasicType ''number'' None) v toks)"
    by (rule h1) simp
  have w9: "(\<exists>m'. match 2 noContext (Repeat 1 4 True (BasicType ''number'' None)) (newMatcher [num1, comma, num2, space, num3]) = Inr (False, m')
        \<and> Match 2 noContext (Repeat 1 4 True (BasicType ''number'' None)) [num1, comma, num2, space, num3] = Inr [])"
    using repeat_boundaries [OF v9 h2 s9 g9, THEN conjunct1, of 1]
    by (simp add: repetitions_def eval_nat_numeral)
  have a2: "matchRepeat (match 1 noContext) 2 4 True (BasicType ''number'' None)
        (newMatcher [num1, comma, num2])
      = Inr (True, \<lparr>buffer = [num1, comma, num2], offset = 3, lexer = [],
                result = [num1, comma, num2], captures = []\<rparr>)"
    by code_simp
  have a4: "peek 1 \<lparr>buffer = [num1], offset = 1, lexer = [num2], result = [num1], captures = []\<rparr>
      = Inr (num2, \<lparr>buffer = [num1, num2], offset = 1, lexer = [], result = [num1],
            captures = []\<rparr>)"
    by code_simp
  have a5: "consistent \<lparr>buffer = [num1], offset = 1, lexer = [comma, num2], result = [num1],
        captures = []\<rparr>
      \<and> upcoming \<lparr>buffer = [num1], offset = 1, lexer = [comma, num2], result = [num1],
        captures = []\<rparr> = [comma, num2]"
    by (simp add: consistent_def upcoming_def stream_def number_defs)
  note rest = repeat_boundaries [OF v0 h2 s0 g0, where mt = "match 1 noContext" and mn' = 2
      and mx' = 4 and commas' = True and op = "BasicType ''number'' None"
      and m = "newMatcher [num1, comma, num2]" and b = True
      and m' = "\<lparr>buffer = [num1, comma, num2], offset = 3, lexer = [],
                result = [num1, comma, num2], captures = []\<rparr>"
      and ?n0.0 = 4 and ?m0.0 = "newMatcher [num5]" and ?n1.0 = 1
      and ma = "\<lparr>buffer = [num1], offset = 1, lexer = [num2], result = [num1], captures = []\<rparr>"
      and nx = num2
      and ?ma1.0 = "\<lparr>buffer = [num1, num2], offset = 1, lexer = [], result = [num1],
          captures = []\<rparr>"
      and ?n2.0 = 1
      and mb = "\<lparr>buffer = [num1], offset = 1, lexer = [comma, num2], result = [num1],
          captures = []\<rparr>"
      and c' = comma and ts = "[num2]", THEN conjunct2]
  from rest a2 a4 a5 have r: "(\<exists>j. repeatLoop (match 1 noContext) 4 True (BasicType ''number'' None) 0
              (newMatcher [num1, comma, num2])
            = Inr (Some j, \<lparr>buffer = [num1, comma, num2], offset = 3, lexer = [],
                result = [num1, comma, num2], captures = []\<rparr>)
          \<and> int j \<le> max 0 4 \<and> True = (2 \<le> int j))
   \<and> repeatLoop (match 1 noContext) 4 True (BasicType ''number'' None) 4 (newMatcher [num5])
       = Inr (Some 4, newMatcher [num5])
   \<and> repeatLoop (match 1 noContext) 4 True (BasicType ''number'' None) 1
         \<lparr>buffer = [num1], offset = 1, lexer = [num2], result = [num1], captures = []\<rparr>
       = Inr (None, \<lparr>buffer = [num1, num2], offset = 1, lexer = [], result = [num1],
            captures = []\<rparr>)
   \<and> (\<exists>mb2. consistent mb2 \<and> upcoming mb2 = [num2] \<and> result mb2 = [num1, comma]
         \<and> repeatLoop (match 1 noContext) 4 True (BasicType ''number'' None) 1
               \<lparr>buffer = [num1], offset = 1, lexer = [comma, num2], result = [num1],
                captures = []\<rparr>
             = (case match 1 noContext (BasicType ''number'' None) mb2 of
                  Inl e \<Rightarrow> Inl e
                | Inr (matched, mb3) \<Rightarrow>
                    if \<not> matched then Inr (Some 1, mb3)
                    else repeatLoop (match 1 noContext) 4 True (BasicType ''number'' None)
                           (1 + 1) mb3))"
    by (simp add: num2_def comma_def)
  note r1 = r [THEN conjunct1] and r2 = r [THEN conjunct2, THEN conjunct1]
    and r3 = r [THEN conjunct2, THEN conjunct2, THEN conjunct1]
    and r4 = r [THEN conjunct2, THEN conjunct2, THEN conjunct2]
  from w0 w1 e1 w2 e2 w3 e3 w4 e4 w5 w6 e6 w7 e7 w8 w9 r1 r2 r3 r4 show ?thesis
    by (intro conjI) assumption+
qed

theorem repeat_missing_comma:
  "match 1 noContext (BasicType ''number'' None) (newMatcher [num1, space, num2])
     = Inr (True, \<lparr>buffer = [num1], offset = 1, lexer = [space, num2], result = [num1],
              captures = []\<rparr>)
   \<and> repeatLoop (match 1 noContext) 4 True (BasicType ''number'' None) 0
       (newMatcher [num1, space, num2])
     = Inr (None, \<lparr>buffer = [num1, num2], offset = 1, lexer = [], result = [num1],
              captures = []\<rparr>)
   \<and> Match 2 noContext (Repeat 1 4 True (BasicType ''number'' None)) [num1, space, num2]
     = Inr []
   \<and> Match 2 noContext (Repeat 1 4 True (BasicType ''number'' None)) [num1]
     = Inr [\<lparr>Name = [], Values = [num1]\<rparr>]"
  by code_simp










text \<open>
  C4. The minus sign in the notation. The text \<^verbatim>\<open>-5\<close> is lexed as the identifier \<^verbatim>\<open>5-\<close>
  and not as the number \<^verbatim>\<open>-5\<close>, the text \<^verbatim>\<open>-abc\<close> as the identifier \<^verbatim>\<open>a-bc\<close> and not
  \<^verbatim>\<open>-abc\<close>, a minus sign before a space as the identifier made of the space and the
  minus sign and not as the literal character, and a minus sign that ends the input as
  the token 0 with the error \<open>EOF\<close>. The plus sign, lexed by \<^verbatim>\<open>lexNumberOrPlus\<close>, keeps
  its place: \<^verbatim>\<open>+5\<close> is the number \<^verbatim>\<open>+5\<close>.
\<close>

theorem lexer_minus:
  "lex 20 (newLexer ''-5'')
     = Inr (None, \<lparr>l_r = [], l_buf = 0, l_err = Some EOF, l_nb = 1, l_token = identToken,
              l_value = ''5-''\<rparr>)
   \<and> lex 20 (newLexer ''-abc'')
     = Inr (None, \<lparr>l_r = [], l_buf = 0, l_err = Some EOF, l_nb = 1, l_token = identToken,
              l_value = ''a-bc''\<rparr>)
   \<and> lex 20 (newLexer ''- '')
     = Inr (None, \<lparr>l_r = [], l_buf = 0, l_err = Some EOF, l_nb = 1, l_token = identToken,
              l_value = '' -''\<rparr>)
   \<and> lex 20 (newLexer ''-'')
     = Inr (Some EOF, \<lparr>l_r = [], l_buf = rune CHR ''-'', l_err = None, l_nb = 1, l_token = 0,
              l_value = []\<rparr>)
   \<and> lex 20 (newLexer ''+5'')
     = Inr (None, \<lparr>l_r = [], l_buf = 0, l_err = Some EOF, l_nb = 1, l_token = numberToken,
              l_value = ''+5''\<rparr>)"
  by code_simp






end
